theory Spec2Isabelle
  imports Main "HOL-Library.Monad_Syntax"
begin

section \<open>JavaScript values\<close>

text \<open>
  The library is generic in its element type \<open>T\<close>, which TypeScript erases: at run time
  an element is any JavaScript value, and several methods of \<open>IterableQueryBase\<close> test an
  element for truthiness (\<open>if (value)\<close>) or compare elements with \<open>===\<close>. Elements are
  therefore values of the type below. Numbers are the integer-valued numbers (counts and
  indices are integers; \<open>NaN\<close>, infinities and fractions are left out). An object carries
  its reference, which is what \<open>===\<close> compares, and its own properties.
\<close>

datatype jsval =
    JUndefined
  | JNull
  | JBool bool
  | JNum int
  | JStr string
  | JObj nat "(string \<times> jsval) list"

text \<open>ToBoolean: \<open>undefined\<close>, \<open>null\<close>, \<open>false\<close>, \<open>0\<close> and \<open>""\<close> are falsy.\<close>

fun truthy :: "jsval \<Rightarrow> bool" where
  "truthy JUndefined = False"
| "truthy JNull = False"
| "truthy (JBool b) = b"
| "truthy (JNum n) = (n \<noteq> 0)"
| "truthy (JStr s) = (s \<noteq> [])"
| "truthy (JObj r fs) = True"


text \<open>Property read \<open>x.k\<close>; a missing property reads as \<open>undefined\<close>.\<close>

fun get_prop :: "jsval \<Rightarrow> string \<Rightarrow> jsval" where
  "get_prop (JObj r fs) k = (case map_of fs k of Some v \<Rightarrow> v | None \<Rightarrow> JUndefined)"
| "get_prop v k = JUndefined"

subsection \<open>Strings of numbers, order of strings\<close>

definition digit_char :: "nat \<Rightarrow> char" where
  "digit_char d = ''0123456789'' ! d"

function digits_of :: "nat \<Rightarrow> string" where
  "digits_of n = (if n < 10 then [digit_char n] else digits_of (n div 10) @ [digit_char (n mod 10)])"
  by pat_completeness auto
termination
  by (relation "measure id") auto

declare digits_of.simps [simp del]

text \<open>
  ToString, as \<open>Array.prototype.sort\<close> and string concatenation apply it (integers below
  \<open>10^21\<close> in magnitude print in plain decimal).
\<close>

fun ToString :: "jsval \<Rightarrow> string" where
  "ToString JUndefined = ''undefined''"
| "ToString JNull = ''null''"
| "ToString (JBool b) = (if b then ''true'' else ''false'')"
| "ToString (JNum n) = (if n < 0 then CHR ''-'' # digits_of (nat (- n)) else digits_of (nat n))"
| "ToString (JStr s) = s"
| "ToString (JObj r fs) = ''[object Object]''"

text \<open>The order of strings under \<open><\<close>: lexicographic on the code units.\<close>

fun str_less :: "string \<Rightarrow> string \<Rightarrow> bool" where
  "str_less [] [] = False"
| "str_less [] (y # ys) = True"
| "str_less (x # xs) [] = False"
| "str_less (x # xs) (y # ys) =
     ((of_char x :: nat) < of_char y \<or> (x = y \<and> str_less xs ys))"

subsection \<open>Ordering and the natural comparison (Compare.ts)\<close>

text \<open>
  Modelled from the spec: \<open>Compare.ts\<close> is not among the sources. The spec gives the
  three-valued Ordering \<open>{Less, Equal, Greater}\<close>; \<open>QueryableBase.ts\<close> reads its field
  \<open>value\<close> as the number handed to \<open>Array.prototype.sort\<close>.
\<close>

datatype Ordering = Less | Equal | Greater

fun Ordering_value :: "Ordering \<Rightarrow> int" where
  "Ordering_value Less = - 1"
| "Ordering_value Equal = 0"
| "Ordering_value Greater = 1"

type_synonym Compare = "jsval \<Rightarrow> jsval \<Rightarrow> Ordering"

text \<open>
  Modelled from the spec: the natural three-way comparison \<open>compare\<close> of \<open>Compare.ts\<close>
  (imported as \<open>compareNatural\<close>), which is not among the sources. It orders two numbers,
  two strings or two booleans as \<open><\<close> does; \<open>QueryableBase.ts\<close> guards its result with
  \<open>?.value ?? 0\<close>, so it may be \<open>undefined\<close>, here \<open>None\<close>.
\<close>

fun compareNatural :: "jsval \<Rightarrow> jsval \<Rightarrow> Ordering option" where
  "compareNatural (JNum a) (JNum b) =
     Some (if a < b then Less else if b < a then Greater else Equal)"
| "compareNatural (JStr a) (JStr b) =
     Some (if str_less a b then Less else if str_less b a then Greater else Equal)"
| "compareNatural (JBool a) (JBool b) =
     Some (if \<not> a \<and> b then Less else if a \<and> \<not> b then Greater else Equal)"
| "compareNatural x y = None"

section \<open>Terminal operations of IterableQueryBase (QueryableBase.ts)\<close>

text \<open>
  \<open>IterableQueryBase\<close> leaves \<open>[Symbol.iterator]\<close> abstract and its terminal operations
  read \<open>this\<close> only through it: \<open>for (const e of this)\<close> obtains a fresh cursor and
  binds \<open>e\<close> to each value the cursor yields until it signals done. In this section a
  finite sequence is the list \<open>xs\<close> of the values that a fresh cursor over it yields, a
  \<open>for\<close> loop is a recursion over that list that carries the loop's variables, and a
  \<open>return\<close> inside the loop ends the recursion. Lemma \<open>for_of_sequence\<close> below
  relates this reading to the cursor protocol run in a store.

  This reading is for an operation that asks \<open>this\<close> for one cursor. \<open>fold\<close>,
  \<open>indexOf\<close> and \<open>findIndex\<close> call \<open>this.isEmpty()\<close> before their loop, and so
  ask \<open>this\<close> for two cursors, which need not yield the same values: only their loops
  are given here, and the operations are defined over the store, with \<open>isEmpty\<close>.
\<close>

subsection \<open>reduce and the loop of fold\<close>

text \<open>\<open>iterator.next()?.value\<close>: the first value, or \<open>undefined\<close> from the done result.\<close>

fun first_value :: "jsval list \<Rightarrow> jsval" where
  "first_value [] = JUndefined"
| "first_value (e # es) = e"

fun reduce_loop :: "(jsval \<Rightarrow> jsval \<Rightarrow> jsval) \<Rightarrow> jsval \<Rightarrow> jsval list \<Rightarrow> jsval" where
  "reduce_loop reducer result [] = result"
| "reduce_loop reducer result (v # rest) = reduce_loop reducer (reducer result v) rest"

definition reduce :: "(jsval \<Rightarrow> jsval \<Rightarrow> jsval) \<Rightarrow> jsval list \<Rightarrow> jsval" where
  "reduce reducer xs =
     (let result = first_value xs
      in if truthy result then reduce_loop reducer result (tl xs) else result)"

fun fold_loop :: "('r \<Rightarrow> jsval \<Rightarrow> 'r) \<Rightarrow> 'r \<Rightarrow> jsval list \<Rightarrow> 'r" where
  "fold_loop combine result [] = result"
| "fold_loop combine result (e # es) = fold_loop combine (combine result e) es"

subsection \<open>min, max\<close>

definition resolve_compare :: "Compare option \<Rightarrow> jsval \<Rightarrow> jsval \<Rightarrow> Ordering option" where
  "resolve_compare compare =
     (case compare of None \<Rightarrow> compareNatural | Some c \<Rightarrow> (\<lambda>x y. Some (c x y)))"

fun min_loop :: "(jsval \<Rightarrow> jsval \<Rightarrow> Ordering option) \<Rightarrow> jsval \<Rightarrow> jsval list \<Rightarrow> jsval" where
  "min_loop compare v [] = v"
| "min_loop compare v (e # es) =
     min_loop compare
       (if truthy v then (if compare e v = Some Less then e else v) else e) es"

definition min_query :: "Compare option \<Rightarrow> jsval list \<Rightarrow> jsval" where
  "min_query compare xs = min_loop (resolve_compare compare) JUndefined xs"

fun max_loop :: "(jsval \<Rightarrow> jsval \<Rightarrow> Ordering option) \<Rightarrow> jsval \<Rightarrow> jsval list \<Rightarrow> jsval" where
  "max_loop compare v [] = v"
| "max_loop compare v (e # es) =
     max_loop compare
       (if truthy v then (if compare e v = Some Greater then e else v) else e) es"

definition max_query :: "Compare option \<Rightarrow> jsval list \<Rightarrow> jsval" where
  "max_query compare xs = max_loop (resolve_compare compare) JUndefined xs"

subsection \<open>single\<close>

fun single_loop :: "jsval \<Rightarrow> jsval list \<Rightarrow> jsval" where
  "single_loop result [] = result"
| "single_loop result (e # es) =
     (if \<not> truthy result then single_loop e es else JUndefined)"

fun single_loop_pred :: "(jsval \<Rightarrow> bool) \<Rightarrow> jsval \<Rightarrow> jsval list \<Rightarrow> jsval" where
  "single_loop_pred predicate result [] = result"
| "single_loop_pred predicate result (e # es) =
     (if predicate e
      then (if \<not> truthy result then single_loop_pred predicate e es else JUndefined)
      else single_loop_pred predicate result es)"

definition single :: "(jsval \<Rightarrow> bool) option \<Rightarrow> jsval list \<Rightarrow> jsval" where
  "single predicate xs =
     (case predicate of
        Some p \<Rightarrow> single_loop_pred p JUndefined xs
      | None \<Rightarrow> single_loop JUndefined xs)"

subsection \<open>The loops of indexOf and findIndex\<close>



subsection \<open>sort, sortBy\<close>

text \<open>
  \<open>Array.prototype.sort\<close> of the host. Its comparison of two elements (SortCompare of
  ECMAScript) puts \<open>undefined\<close> last, calls the comparison function when there is one,
  and otherwise compares the two elements as strings. The sort is stable (ECMAScript
  2019): an element is inserted before the first element it does not compare greater
  than, starting from the last element of the input.
\<close>

definition SortCompare :: "(jsval \<Rightarrow> jsval \<Rightarrow> int) option \<Rightarrow> jsval \<Rightarrow> jsval \<Rightarrow> int" where
  "SortCompare comparefn x y =
     (if x = JUndefined \<and> y = JUndefined then 0
      else if x = JUndefined then 1
      else if y = JUndefined then - 1
      else case comparefn of
             Some f \<Rightarrow> f x y
           | None \<Rightarrow>
               (if str_less (ToString x) (ToString y) then - 1
                else if str_less (ToString y) (ToString x) then 1
                else 0))"

fun insert_sorted :: "(jsval \<Rightarrow> jsval \<Rightarrow> int) \<Rightarrow> jsval \<Rightarrow> jsval list \<Rightarrow> jsval list" where
  "insert_sorted cmp x [] = [x]"
| "insert_sorted cmp x (y # ys) =
     (if cmp x y \<le> 0 then x # y # ys else y # insert_sorted cmp x ys)"

definition Array_sort :: "(jsval \<Rightarrow> jsval \<Rightarrow> int) option \<Rightarrow> jsval list \<Rightarrow> jsval list" where
  "Array_sort comparefn xs = foldr (insert_sorted (SortCompare comparefn)) xs []"

definition sort_query :: "Compare option \<Rightarrow> jsval list \<Rightarrow> jsval list" where
  "sort_query compare xs =
     (case compare of
        Some c \<Rightarrow> Array_sort (Some (\<lambda>x y. Ordering_value (c x y))) xs
      | None \<Rightarrow> Array_sort None xs)"

definition sortBy :: "(jsval \<Rightarrow> jsval) \<Rightarrow> Compare option \<Rightarrow> jsval list \<Rightarrow> jsval list" where
  "sortBy keySelector compare xs =
     (case compare of
        Some c \<Rightarrow>
          Array_sort (Some (\<lambda>x y. Ordering_value (c (keySelector x) (keySelector y)))) xs
      | None \<Rightarrow>
          Array_sort
            (Some (\<lambda>x y. case compareNatural (keySelector x) (keySelector y) of
                            Some ord \<Rightarrow> Ordering_value ord
                          | None \<Rightarrow> 0)) xs)"

section \<open>Objects and the store\<close>

text \<open>
  Sequences, cursors and handles are objects with identity: a stage keeps a reference to
  its source, a cursor is mutated by \<open>next()\<close>, and a chain method returns either a new
  handle or \<open>this\<close>. The store is the list of all objects created so far; the address of
  an object is its position, and \<open>new\<close> appends. Fields set once in a constructor
  (\<open>readonly\<close>) are copied unchanged by every update below.

  An array is held by value inside the objects that read it: no code under study writes
  to an array it iterates. A count or length is checked by its constructor and is a
  natural number afterwards.

  An operation that runs the cursor protocol returns an option: \<open>None\<close> is a call that
  does not return a value (it does not terminate, or it calls a method that the object at
  that address does not have, which the types of the source exclude). A \<open>throw\<close> is the
  left summand of a sum.
\<close>

text \<open>
  The classes and their fields, in the order of the constructor arguments:
  \<^item> \<open>JSArray\<close>: the elements of a host array;
  \<^item> \<open>ArrayIterator\<close>: the array and the position of the host's array iterator;
  \<^item> \<open>IterableGenerator\<close>: \<open>length\<close>, \<open>generator\<close>, \<open>seed\<close>, \<open>index\<close>, \<open>prev\<close>;
  \<^item> \<open>TakeIterable\<close>: \<open>source\<close>, \<open>iterator\<close>, \<open>count\<close>, \<open>index\<close>;
  \<^item> \<open>TakeArrayIterable\<close>: \<open>source\<close>, \<open>count\<close>, \<open>index\<close>;
  \<^item> \<open>AppendPrependIterable\<close>: \<open>source\<close>, \<open>iterator\<close>, \<open>append\<close>, \<open>item\<close>,
    \<open>hasItem\<close>;
  \<^item> \<open>AppendPrependArrayIterable\<close>: \<open>source\<close>, \<open>append\<close>, \<open>item\<close>,
    \<open>hasItem\<close>, \<open>index\<close>;
  \<^item> \<open>MapIterable\<close>: \<open>source\<close>, \<open>iterator\<close>, \<open>transform\<close>;
    \<open>FilterIterable\<close>: \<open>source\<close>, \<open>iterator\<close>, \<open>predicate\<close>;
  \<^item> \<open>IterableQuery\<close>: \<open>iterable\<close>; \<open>IterableArrayQuery\<close>: its array.
\<close>

type_synonym addr = nat

datatype obj =
    JSArray "jsval list"
  | ArrayIterator "jsval list" nat
  | IterableGenerator nat "nat \<Rightarrow> jsval \<Rightarrow> jsval" jsval nat jsval
  | TakeIterable addr addr nat nat
  | TakeArrayIterable "jsval list" nat nat
  | AppendPrependIterable addr addr bool jsval bool
  | AppendPrependArrayIterable "jsval list" bool jsval bool nat
  | MapIterable addr addr "jsval \<Rightarrow> jsval"
  | FilterIterable addr addr "jsval \<Rightarrow> bool"
  | IterableQuery addr
  | IterableArrayQuery "jsval list"

type_synonym heap = "obj list"

definition lookup :: "heap \<Rightarrow> addr \<Rightarrow> obj option" where
  "lookup h a = (if a < length h then Some (h ! a) else None)"

definition alloc :: "heap \<Rightarrow> obj \<Rightarrow> addr \<times> heap" where
  "alloc h ob = (length h, h @ [ob])"

datatype error = Error string

subsection \<open>The cursor protocol\<close>

text \<open>
  Modelled from the spec: \<open>IterableIterator.ts\<close> is not among the sources. The spec gives
  the protocol: \<open>next()\<close> returns either a produced value or a done sentinel that carries
  no value. The base class is taken to forward \<open>next()\<close> to \<open>getNext()\<close> and
  \<open>[Symbol.iterator]()\<close> to \<open>clone()\<close>, which is what the subclasses under
  \<open>Iterables/\<close> implement.
\<close>

datatype IteratorResult = IteratorResult (rdone: bool) (rvalue: jsval)

definition iteratorResult :: "jsval \<Rightarrow> IteratorResult" where
  "iteratorResult v = IteratorResult False v"

definition iteratorDone :: IteratorResult where
  "iteratorDone = IteratorResult True JUndefined"

text \<open>An array read \<open>source[i]\<close>; out of range it is \<open>undefined\<close>.\<close>

definition array_get :: "jsval list \<Rightarrow> nat \<Rightarrow> jsval" where
  "array_get xs i = (if i < length xs then xs ! i else JUndefined)"

subsection \<open>Obtaining a cursor\<close>

text \<open>
  \<open>iterable[Symbol.iterator]()\<close>. An array gives a new array iterator; an array iterator
  gives itself (a one-shot source); \<open>IterableGenerator\<close> builds a new generator from
  its length, function and seed; every subclass of \<open>IterableIterator\<close> calls its
  \<open>clone()\<close>, which runs the constructor on the stored source again, so a stage over a
  source asks that source for a new cursor before the stage itself is created.

  Modelled from the spec: \<open>IterableQuery.ts\<close> and \<open>ArrayQuery.ts\<close> are not among the
  sources. A generic handle wraps a cursor-producing source in its field \<open>iterable\<close>
  (read by \<open>getSizedIterableCount\<close>) and an array-backed handle wraps an array; each
  hands out the cursor of what it wraps.
\<close>

partial_function (option) symbol_iterator :: "heap \<Rightarrow> addr \<Rightarrow> (addr \<times> heap) option" where
  "symbol_iterator h a =
     (case lookup h a of
        None \<Rightarrow> None
      | Some (JSArray xs) \<Rightarrow> Some (alloc h (ArrayIterator xs 0))
      | Some (ArrayIterator xs i) \<Rightarrow> Some (a, h)
      | Some (IterableGenerator len g seed idx prev) \<Rightarrow>
          Some (alloc h (IterableGenerator len g seed 0 seed))
      | Some (TakeIterable src it cnt idx) \<Rightarrow>
          do { (it', h1) \<leftarrow> symbol_iterator h src;
               Some (alloc h1 (TakeIterable src it' cnt 0)) }
      | Some (TakeArrayIterable xs cnt idx) \<Rightarrow> Some (alloc h (TakeArrayIterable xs cnt 0))
      | Some (AppendPrependIterable src it app item has) \<Rightarrow>
          do { (it', h1) \<leftarrow> symbol_iterator h src;
               Some (alloc h1 (AppendPrependIterable src it' app item True)) }
      | Some (AppendPrependArrayIterable xs app item has idx) \<Rightarrow>
          Some (alloc h (AppendPrependArrayIterable xs app item True 0))
      | Some (MapIterable src it transform) \<Rightarrow>
          do { (it', h1) \<leftarrow> symbol_iterator h src;
               Some (alloc h1 (MapIterable src it' transform)) }
      | Some (FilterIterable src it predicate) \<Rightarrow>
          do { (it', h1) \<leftarrow> symbol_iterator h src;
               Some (alloc h1 (FilterIterable src it' predicate)) }
      | Some (IterableQuery s) \<Rightarrow> symbol_iterator h s
      | Some (IterableArrayQuery xs) \<Rightarrow> Some (alloc h (ArrayIterator xs 0)))"

subsection \<open>Advancing a cursor\<close>

text \<open>
  \<open>iterator.next()\<close>: one equation per class, following its \<open>getNext()\<close> (or
  \<open>next()\<close> for \<open>IterableGenerator\<close>). Arrays and handles have no \<open>next\<close>.

  Modelled from the spec: \<open>MapIterable.ts\<close> and \<open>FilterIterable.ts\<close> are not among
  the sources; \<open>QueryableBase.ts\<close> constructs them in \<open>map\<close> and \<open>filter\<close>.
  The spec: the stateless combinators wrap calls, \<open>next()\<close> pulls upstream
  repeatedly, looping past rejected elements, until a value is ready or upstream is
  exhausted; construction stores the upstream sequence and the parameters. They are taken
  to follow the pattern of \<open>TakeIterable\<close>: the constructor keeps the source and a
  cursor of it, and \<open>clone()\<close> constructs anew from the source.
\<close>

partial_function (option) iterator_next :: "heap \<Rightarrow> addr \<Rightarrow> (IteratorResult \<times> heap) option" where
  "iterator_next h a =
     (case lookup h a of
        None \<Rightarrow> None
      | Some (JSArray xs) \<Rightarrow> None
      | Some (ArrayIterator xs i) \<Rightarrow>
          (if i < length xs then Some (iteratorResult (xs ! i), h[a := ArrayIterator xs (i + 1)])
           else Some (iteratorDone, h))
      | Some (IterableGenerator len g seed idx prev) \<Rightarrow>
          (if idx < len
           then (let nx = g idx prev
                 in Some (iteratorResult nx, h[a := IterableGenerator len g seed (idx + 1) nx]))
           else Some (iteratorDone, h))
      | Some (TakeIterable src it cnt idx) \<Rightarrow>
          (if idx = cnt then Some (iteratorDone, h)
           else iterator_next (h[a := TakeIterable src it cnt (idx + 1)]) it)
      | Some (TakeArrayIterable xs cnt idx) \<Rightarrow>
          (if idx < cnt \<and> idx < length xs
           then Some (iteratorResult (xs ! idx), h[a := TakeArrayIterable xs cnt (idx + 1)])
           else Some (iteratorDone, h))
      | Some (AppendPrependIterable src it app item has) \<Rightarrow>
          (if app
           then do { (nx, h1) \<leftarrow> iterator_next h it;
                     if rdone nx \<and> has
                     then Some (iteratorResult item,
                                h1[a := AppendPrependIterable src it app item False])
                     else Some (nx, h1) }
           else (if has
                 then Some (iteratorResult item, h[a := AppendPrependIterable src it app item False])
                 else iterator_next h it))
      | Some (AppendPrependArrayIterable xs app item has idx) \<Rightarrow>
          (if \<not> has \<and> idx = length xs then Some (iteratorDone, h)
           else if app
           then (if has \<and> idx = length xs
                 then Some (iteratorResult item,
                            h[a := AppendPrependArrayIterable xs app item False idx])
                 else Some (iteratorResult (array_get xs idx),
                            h[a := AppendPrependArrayIterable xs app item has (idx + 1)]))
           else (if has
                 then Some (iteratorResult item,
                            h[a := AppendPrependArrayIterable xs app item False idx])
                 else Some (iteratorResult (array_get xs idx),
                            h[a := AppendPrependArrayIterable xs app item has (idx + 1)])))
      | Some (MapIterable src it transform) \<Rightarrow>
          do { (nx, h1) \<leftarrow> iterator_next h it;
               if rdone nx then Some (iteratorDone, h1)
               else Some (iteratorResult (transform (rvalue nx)), h1) }
      | Some (FilterIterable src it predicate) \<Rightarrow>
          do { (nx, h1) \<leftarrow> iterator_next h it;
               if rdone nx then Some (iteratorDone, h1)
               else if predicate (rvalue nx) then Some (iteratorResult (rvalue nx), h1)
               else iterator_next h1 a }
      | Some (IterableQuery s) \<Rightarrow> None
      | Some (IterableArrayQuery xs) \<Rightarrow> None)"

subsection \<open>Constructors\<close>

text \<open>
  \<open>new Error(msg)\<close> is \<open>Error msg\<close>. \<open>TakeIterable\<close> and
  \<open>AppendPrependIterable\<close> obtain the cursor of their source in the constructor, after
  the argument check. A count or a length is an integer here, as everywhere in this
  development: a fractional count, which the test \<open>index === count\<close> of
  \<open>TakeIterable\<close> would never meet, is outside the embedding.
\<close>

definition new_TakeIterable :: "heap \<Rightarrow> addr \<Rightarrow> int \<Rightarrow> (error + addr \<times> heap) option" where
  "new_TakeIterable h iterable count =
     (if count < 0 then Some (Inl (Error (''Invalid argument: '' @ ToString (JNum count))))
      else do { (it, h1) \<leftarrow> symbol_iterator h iterable;
                Some (Inr (alloc h1 (TakeIterable iterable it (nat count) 0))) })"

definition new_TakeArrayIterable :: "heap \<Rightarrow> jsval list \<Rightarrow> int \<Rightarrow> error + addr \<times> heap" where
  "new_TakeArrayIterable h array count =
     (if count < 0 then Inl (Error (''Invalid argument: '' @ ToString (JNum count)))
      else Inr (alloc h (TakeArrayIterable array (nat count) 0)))"

definition new_AppendPrependIterable ::
  "heap \<Rightarrow> addr \<Rightarrow> jsval \<Rightarrow> bool \<Rightarrow> (addr \<times> heap) option" where
  "new_AppendPrependIterable h iterable item app =
     do { (it, h1) \<leftarrow> symbol_iterator h iterable;
          Some (alloc h1 (AppendPrependIterable iterable it app item True)) }"

definition new_AppendPrependArrayIterable ::
  "heap \<Rightarrow> jsval list \<Rightarrow> jsval \<Rightarrow> bool \<Rightarrow> addr \<times> heap" where
  "new_AppendPrependArrayIterable h array item app =
     alloc h (AppendPrependArrayIterable array app item True 0)"

definition new_MapIterable :: "heap \<Rightarrow> addr \<Rightarrow> (jsval \<Rightarrow> jsval) \<Rightarrow> (addr \<times> heap) option" where
  "new_MapIterable h iterable transform =
     do { (it, h1) \<leftarrow> symbol_iterator h iterable;
          Some (alloc h1 (MapIterable iterable it transform)) }"

definition new_FilterIterable :: "heap \<Rightarrow> addr \<Rightarrow> (jsval \<Rightarrow> bool) \<Rightarrow> (addr \<times> heap) option" where
  "new_FilterIterable h iterable predicate =
     do { (it, h1) \<leftarrow> symbol_iterator h iterable;
          Some (alloc h1 (FilterIterable iterable it predicate)) }"

definition new_IterableGenerator ::
  "heap \<Rightarrow> int \<Rightarrow> (nat \<Rightarrow> jsval \<Rightarrow> jsval) \<Rightarrow> jsval \<Rightarrow> error + addr \<times> heap" where
  "new_IterableGenerator h len generator seed =
     (if len < 0 then Inl (Error ''length cannot be 0'')
      else Inr (alloc h (IterableGenerator (nat len) generator seed 0 seed)))"

subsection \<open>Traversal\<close>

text \<open>
  \<open>drain\<close> calls \<open>next()\<close> until the first done result and collects the values;
  \<open>toArray\<close> is \<open>Array.from(this)\<close>, that is \<open>for (const e of this)\<close>: a cursor
  from \<open>[Symbol.iterator]()\<close>, then \<open>drain\<close>. \<open>yields\<close> and \<open>pulls\<close> keep
  the values and drop the store.
\<close>

partial_function (option) drain :: "heap \<Rightarrow> addr \<Rightarrow> (jsval list \<times> heap) option" where
  "drain h it =
     do { (r, h1) \<leftarrow> iterator_next h it;
          if rdone r then Some ([], h1)
          else do { (vs, h2) \<leftarrow> drain h1 it; Some (rvalue r # vs, h2) } }"

definition toArray :: "heap \<Rightarrow> addr \<Rightarrow> (jsval list \<times> heap) option" where
  "toArray h this =
     do { (it, h1) \<leftarrow> symbol_iterator h this; drain h1 it }"

definition yields :: "heap \<Rightarrow> addr \<Rightarrow> jsval list option" where
  "yields h this = map_option fst (toArray h this)"

definition pulls :: "heap \<Rightarrow> addr \<Rightarrow> jsval list option" where
  "pulls h it = map_option fst (drain h it)"

text \<open>
  The loop \<open>for (const e of this) { ... }\<close> with the loop's variables \<open>s\<close>: the
  body returns \<open>Inr\<close> of the new variables to go on and \<open>Inl\<close> of a value for a
  \<open>return\<close> inside the loop. \<open>for_list\<close> is the same loop over a list of values.
\<close>

partial_function (option) for_loop ::
  "heap \<Rightarrow> addr \<Rightarrow> ('s \<Rightarrow> jsval \<Rightarrow> 'r + 's) \<Rightarrow> 's \<Rightarrow> (('r + 's) \<times> heap) option" where
  "for_loop h it body s =
     do { (r, h1) \<leftarrow> iterator_next h it;
          if rdone r then Some (Inr s, h1)
          else (case body s (rvalue r) of
                  Inl v \<Rightarrow> Some (Inl v, h1)
                | Inr s' \<Rightarrow> for_loop h1 it body s') }"

definition for_of ::
  "heap \<Rightarrow> addr \<Rightarrow> ('s \<Rightarrow> jsval \<Rightarrow> 'r + 's) \<Rightarrow> 's \<Rightarrow> (('r + 's) \<times> heap) option" where
  "for_of h this body s = do { (it, h1) \<leftarrow> symbol_iterator h this; for_loop h1 it body s }"

fun for_list :: "('s \<Rightarrow> jsval \<Rightarrow> 'r + 's) \<Rightarrow> 's \<Rightarrow> jsval list \<Rightarrow> 'r + 's" where
  "for_list body s [] = Inr s"
| "for_list body s (e # es) =
     (case body s e of Inl v \<Rightarrow> Inl v | Inr s' \<Rightarrow> for_list body s' es)"

subsection \<open>Handles and the factory (Query.ts)\<close>

definition new_IterableQuery :: "heap \<Rightarrow> addr \<Rightarrow> addr \<times> heap" where
  "new_IterableQuery h iterable = alloc h (IterableQuery iterable)"

definition new_IterableArrayQuery :: "heap \<Rightarrow> jsval list \<Rightarrow> addr \<times> heap" where
  "new_IterableArrayQuery h array = alloc h (IterableArrayQuery array)"

definition Query_from :: "heap \<Rightarrow> jsval list \<Rightarrow> addr \<times> heap" where
  "Query_from h vals = new_IterableArrayQuery h vals"

definition Query_fromIterable :: "heap \<Rightarrow> addr \<Rightarrow> addr \<times> heap" where
  "Query_fromIterable h iterable = new_IterableQuery h iterable"

definition Query_generate ::
  "heap \<Rightarrow> int \<Rightarrow> (nat \<Rightarrow> jsval \<Rightarrow> jsval) \<Rightarrow> jsval \<Rightarrow> error + addr \<times> heap" where
  "Query_generate h len generator seed =
     (case new_IterableGenerator h len generator seed of
        Inl e \<Rightarrow> Inl e
      | Inr (iterable, h1) \<Rightarrow> Inr (new_IterableQuery h1 iterable))"

subsection \<open>Chain operations and count (QueryableBase.ts)\<close>

text \<open>
  \<open>map\<close>, \<open>filter\<close>, \<open>take\<close>, \<open>append\<close>, \<open>prepend\<close>, \<open>isEmpty\<close>,
  \<open>defaultIfEmpty\<close> and \<open>count\<close> of \<open>IterableQueryBase\<close>, with the receiver
  \<open>this\<close> an address.
  \<open>defaultIfEmpty\<close> takes the address of its \<open>defaultValue\<close>;
  \<open>Array.isArray\<close> holds for an array object.

  \<open>count()\<close> without a predicate first asks \<open>getSizedIterableCount\<close>, which looks
  through generic handles for an object with a method \<open>count\<close>. Of the objects here
  only a handle has one (\<open>TakeIterable.count\<close> is a number, not a function); an
  array-backed handle answers by counting. A result that is \<open>undefined\<close> or \<open>0\<close>
  falls through to the counting loop.
\<close>

definition map_query :: "heap \<Rightarrow> addr \<Rightarrow> (jsval \<Rightarrow> jsval) \<Rightarrow> (addr \<times> heap) option" where
  "map_query h this transform =
     do { (iterable, h1) \<leftarrow> new_MapIterable h this transform;
          Some (new_IterableQuery h1 iterable) }"

definition filter_query :: "heap \<Rightarrow> addr \<Rightarrow> (jsval \<Rightarrow> bool) \<Rightarrow> (addr \<times> heap) option" where
  "filter_query h this predicate =
     do { (iterable, h1) \<leftarrow> new_FilterIterable h this predicate;
          Some (new_IterableQuery h1 iterable) }"

definition take_query :: "heap \<Rightarrow> addr \<Rightarrow> int \<Rightarrow> (error + addr \<times> heap) option" where
  "take_query h this n =
     do { r \<leftarrow> new_TakeIterable h this n;
          case r of
            Inl e \<Rightarrow> Some (Inl e)
          | Inr (iterable, h1) \<Rightarrow> Some (Inr (new_IterableQuery h1 iterable)) }"

definition append_query :: "heap \<Rightarrow> addr \<Rightarrow> jsval \<Rightarrow> (addr \<times> heap) option" where
  "append_query h this v =
     do { (iterable, h1) \<leftarrow> new_AppendPrependIterable h this v True;
          Some (new_IterableQuery h1 iterable) }"

definition prepend_query :: "heap \<Rightarrow> addr \<Rightarrow> jsval \<Rightarrow> (addr \<times> heap) option" where
  "prepend_query h this v =
     do { (iterable, h1) \<leftarrow> new_AppendPrependIterable h this v False;
          Some (new_IterableQuery h1 iterable) }"

definition isEmpty_query :: "heap \<Rightarrow> addr \<Rightarrow> (bool \<times> heap) option" where
  "isEmpty_query h this =
     do { (it, h1) \<leftarrow> symbol_iterator h this;
          (r, h2) \<leftarrow> iterator_next h1 it;
          Some (rdone r, h2) }"


definition MAX_SAFE_INTEGER :: nat where
  "MAX_SAFE_INTEGER = 9007199254740991"

definition count_overflow :: error where
  "count_overflow = Error ''size of the iterable is greater than the max safe interger value''"

partial_function (option) count_loop ::
  "heap \<Rightarrow> addr \<Rightarrow> nat \<Rightarrow> (error + nat \<times> heap) option" where
  "count_loop h it count =
     do { (r, h1) \<leftarrow> iterator_next h it;
          if rdone r then Some (Inr (count, h1))
          else if count + 1 > MAX_SAFE_INTEGER
          then Some (Inl count_overflow)
          else count_loop h1 it (count + 1) }"

definition count_traverse :: "heap \<Rightarrow> addr \<Rightarrow> (error + nat \<times> heap) option" where
  "count_traverse h this =
     do { (it, h1) \<leftarrow> symbol_iterator h this; count_loop h1 it 0 }"

partial_function (option) getSizedIterableCount ::
  "heap \<Rightarrow> addr \<Rightarrow> (error + nat option \<times> heap) option" where
  "getSizedIterableCount h iter =
     (case lookup h iter of
        None \<Rightarrow> None
      | Some (IterableQuery iterable) \<Rightarrow> getSizedIterableCount h iterable
      | Some (IterableArrayQuery xs) \<Rightarrow>
          do { r \<leftarrow> count_traverse h iter;
               case r of Inl e \<Rightarrow> Some (Inl e) | Inr (c, h1) \<Rightarrow> Some (Inr (Some c, h1)) }
      | Some ob \<Rightarrow> Some (Inr (None, h)))"

definition count_query :: "heap \<Rightarrow> addr \<Rightarrow> (error + nat \<times> heap) option" where
  "count_query h this =
     (case lookup h this of
        Some (IterableQuery iterable) \<Rightarrow>
          do { r \<leftarrow> getSizedIterableCount h this;
               case r of
                 Inl e \<Rightarrow> Some (Inl e)
               | Inr (thisCount, h1) \<Rightarrow>
                   (case thisCount of
                      Some c \<Rightarrow> if c \<noteq> 0 then Some (Inr (c, h1)) else count_traverse h1 this
                    | None \<Rightarrow> count_traverse h1 this) }
      | _ \<Rightarrow> count_traverse h this)"

subsection \<open>fold, indexOf and findIndex (QueryableBase.ts)\<close>

text \<open>
  Each of the three starts with \<open>if (this.isEmpty()) return ...\<close> and then runs
  \<open>for (const e of this)\<close>: \<open>isEmpty\<close> obtains a cursor of \<open>this\<close> and calls
  \<open>next()\<close> on it once, and the loop obtains a cursor of \<open>this\<close> again, in the store
  that \<open>isEmpty\<close> left. The result \<open>number | undefined\<close> is an option: \<open>None\<close>
  is \<open>undefined\<close>. A \<open>return index\<close> inside the loop is \<open>Inl index\<close>, and the
  \<open>return index\<close> after the loop returns the index the loop ended with.
\<close>

definition fold_query ::
  "heap \<Rightarrow> addr \<Rightarrow> 'r \<Rightarrow> ('r \<Rightarrow> jsval \<Rightarrow> 'r) \<Rightarrow> ('r \<times> heap) option" where
  "fold_query h this initialValue combine =
     do { (isempty, h1) \<leftarrow> isEmpty_query h this;
          if isempty then Some (initialValue, h1)
          else do { (r, h2) \<leftarrow> for_of h1 this (\<lambda>result e. Inr (combine result e)) initialValue;
                    Some (case r of Inl result \<Rightarrow> result | Inr result \<Rightarrow> result, h2) } }"



subsection \<open>Range and Chunk constructors\<close>

text \<open>
  Modelled from the spec: \<open>RangeIterable.ts\<close> and \<open>ChunkIterable.ts\<close> are not among
  the sources. The spec says that a zero step and a chunk size that is not positive are
  invalid arguments, which fail at construction, and that construction stores the
  parameters and pulls nothing. Only the constructors are modelled: the argument check
  and the stored parameters.
\<close>

definition new_RangeIterable :: "int \<Rightarrow> int \<Rightarrow> int \<Rightarrow> bool \<Rightarrow> error + int \<times> int \<times> int \<times> bool" where
  "new_RangeIterable start stop step inclusive =
     (if step = 0 then Inl (Error ''Invalid argument'')
      else Inr (start, stop, step, inclusive))"

definition new_ChunkIterable :: "heap \<Rightarrow> addr \<Rightarrow> int \<Rightarrow> error + addr \<times> nat" where
  "new_ChunkIterable h iterable chunkSize =
     (if chunkSize \<le> 0 then Inl (Error ''Invalid argument'')
      else Inr (iterable, nat chunkSize))"

subsection \<open>Pipelines\<close>

text \<open>
  A pipeline is a program that builds a handle with the factory and the chain operations:
  \<open>Query.from(...xs)\<close>, \<open>Query.fromIterable\<close> of an array or of an
  array-specialised stage, \<open>Query.generate\<close>, and \<open>take\<close>, \<open>append\<close>,
  \<open>prepend\<close>, \<open>map\<close>, \<open>filter\<close> on what was built. \<open>build\<close> runs it in a store. \<open>elements\<close> is
  the sequence the pipeline denotes, used to state what a traversal returns;
  \<open>generated\<close> is the recurrence of \<open>IterableGenerator\<close> and \<open>with_item\<close> the
  sequence with the appended or prepended item while it is still owed.
\<close>

datatype pipeline =
    FromValues "jsval list"
  | FromArray "jsval list"
  | Generate int "nat \<Rightarrow> jsval \<Rightarrow> jsval" jsval
  | FromTakeArray "jsval list" int
  | FromAppendPrependArray "jsval list" jsval bool
  | Take pipeline int
  | Append pipeline jsval
  | Prepend pipeline jsval
  | Map pipeline "jsval \<Rightarrow> jsval"
  | Filter pipeline "jsval \<Rightarrow> bool"

fun build :: "heap \<Rightarrow> pipeline \<Rightarrow> (error + addr \<times> heap) option" where
  "build h (FromValues xs) = Some (Inr (Query_from h xs))"
| "build h (FromArray xs) =
     (case alloc h (JSArray xs) of (array, h1) \<Rightarrow> Some (Inr (Query_fromIterable h1 array)))"
| "build h (Generate len g seed) = Some (Query_generate h len g seed)"
| "build h (FromTakeArray xs n) =
     (case new_TakeArrayIterable h xs n of
        Inl e \<Rightarrow> Some (Inl e)
      | Inr (iterable, h1) \<Rightarrow> Some (Inr (Query_fromIterable h1 iterable)))"
| "build h (FromAppendPrependArray xs item app) =
     (case new_AppendPrependArrayIterable h xs item app of
        (iterable, h1) \<Rightarrow> Some (Inr (Query_fromIterable h1 iterable)))"
| "build h (Take p n) =
     do { r \<leftarrow> build h p;
          case r of Inl e \<Rightarrow> Some (Inl e) | Inr (s, h1) \<Rightarrow> take_query h1 s n }"
| "build h (Append p v) =
     do { r \<leftarrow> build h p;
          case r of Inl e \<Rightarrow> Some (Inl e) | Inr (s, h1) \<Rightarrow> map_option Inr (append_query h1 s v) }"
| "build h (Prepend p v) =
     do { r \<leftarrow> build h p;
          case r of Inl e \<Rightarrow> Some (Inl e) | Inr (s, h1) \<Rightarrow> map_option Inr (prepend_query h1 s v) }"
| "build h (Map p f) =
     do { r \<leftarrow> build h p;
          case r of Inl e \<Rightarrow> Some (Inl e) | Inr (s, h1) \<Rightarrow> map_option Inr (map_query h1 s f) }"
| "build h (Filter p pr) =
     do { r \<leftarrow> build h p;
          case r of Inl e \<Rightarrow> Some (Inl e) | Inr (s, h1) \<Rightarrow> map_option Inr (filter_query h1 s pr) }"

fun generated :: "(nat \<Rightarrow> jsval \<Rightarrow> jsval) \<Rightarrow> nat \<Rightarrow> jsval \<Rightarrow> nat \<Rightarrow> jsval list" where
  "generated g idx prev 0 = []"
| "generated g idx prev (Suc n) = (let nx = g idx prev in nx # generated g (idx + 1) nx n)"

definition with_item :: "bool \<Rightarrow> bool \<Rightarrow> jsval \<Rightarrow> jsval list \<Rightarrow> jsval list" where
  "with_item app has item ys =
     (if has then (if app then ys @ [item] else item # ys) else ys)"

fun elements :: "pipeline \<Rightarrow> jsval list" where
  "elements (FromValues xs) = xs"
| "elements (FromArray xs) = xs"
| "elements (Generate len g seed) = generated g 0 seed (nat len)"
| "elements (FromTakeArray xs n) = take (nat n) xs"
| "elements (FromAppendPrependArray xs item app) = (if app then xs @ [item] else item # xs)"
| "elements (Take p n) = take (nat n) (elements p)"
| "elements (Append p v) = elements p @ [v]"
| "elements (Prepend p v) = v # elements p"
| "elements (Map p f) = map f (elements p)"
| "elements (Filter p pr) = filter pr (elements p)"

subsection \<open>Invariants of cursors and sequences\<close>

text \<open>
  \<open>preserves h h'\<close>: every object of \<open>h\<close> is in \<open>h'\<close> at the same address and
  unchanged.

  \<open>cursor_at h a A ys\<close>: the object at \<open>a\<close> is a cursor that owns the cells \<open>A\<close>
  (itself and the cursors it pulls from) and will yield exactly \<open>ys\<close>.
  \<open>sequence_at n h a ys\<close>: the object at \<open>a\<close> is a restartable sequence, built from
  arrays, generators, handles and stages that all live below address \<open>n\<close>, and a fresh
  cursor over it yields \<open>ys\<close>. An array iterator is a cursor but not a restartable
  sequence. \<open>stepped\<close> is the effect of one \<open>next()\<close> on a cursor,
  \<open>fresh_cursor\<close> a cursor whose cells were all created after the store \<open>h\<close>, and
  \<open>counted\<close> the result of the counting loop with its overflow check.
\<close>

definition preserves :: "heap \<Rightarrow> heap \<Rightarrow> bool" where
  "preserves h h' \<longleftrightarrow> take (length h) h' = h"

inductive cursor_at :: "heap \<Rightarrow> addr \<Rightarrow> addr set \<Rightarrow> jsval list \<Rightarrow> bool" where
  cur_ArrayIterator:
    "a < length h \<Longrightarrow> h ! a = ArrayIterator xs i \<Longrightarrow> cursor_at h a {a} (drop i xs)"
| cur_Generator:
    "a < length h \<Longrightarrow> h ! a = IterableGenerator len g seed idx prev \<Longrightarrow>
     cursor_at h a {a} (generated g idx prev (len - idx))"
| cur_TakeArray:
    "a < length h \<Longrightarrow> h ! a = TakeArrayIterable xs cnt idx \<Longrightarrow>
     cursor_at h a {a} (take (cnt - idx) (drop idx xs))"
| cur_AppendPrependArray:
    "a < length h \<Longrightarrow> h ! a = AppendPrependArrayIterable xs app item has idx \<Longrightarrow>
     idx \<le> length xs \<Longrightarrow>
     cursor_at h a {a} (with_item app has item (drop idx xs))"
| cur_Take:
    "a < length h \<Longrightarrow> h ! a = TakeIterable src it cnt idx \<Longrightarrow> idx \<le> cnt \<Longrightarrow>
     cursor_at h it A ys \<Longrightarrow> a \<notin> A \<Longrightarrow>
     cursor_at h a (insert a A) (take (cnt - idx) ys)"
| cur_AppendPrepend:
    "a < length h \<Longrightarrow> h ! a = AppendPrependIterable src it app item has \<Longrightarrow>
     cursor_at h it A ys \<Longrightarrow> a \<notin> A \<Longrightarrow>
     cursor_at h a (insert a A) (with_item app has item ys)"
| cur_Map:
    "a < length h \<Longrightarrow> h ! a = MapIterable src it f \<Longrightarrow>
     cursor_at h it A ys \<Longrightarrow> a \<notin> A \<Longrightarrow>
     cursor_at h a (insert a A) (map f ys)"
| cur_Filter:
    "a < length h \<Longrightarrow> h ! a = FilterIterable src it pr \<Longrightarrow>
     cursor_at h it A ys \<Longrightarrow> a \<notin> A \<Longrightarrow>
     cursor_at h a (insert a A) (filter pr ys)"

inductive sequence_at :: "nat \<Rightarrow> heap \<Rightarrow> addr \<Rightarrow> jsval list \<Rightarrow> bool" where
  seq_Array: "a < n \<Longrightarrow> h ! a = JSArray xs \<Longrightarrow> sequence_at n h a xs"
| seq_ArrayQuery: "a < n \<Longrightarrow> h ! a = IterableArrayQuery xs \<Longrightarrow> sequence_at n h a xs"
| seq_Query: "a < n \<Longrightarrow> h ! a = IterableQuery s \<Longrightarrow> sequence_at n h s ys \<Longrightarrow> sequence_at n h a ys"
| seq_Generator:
    "a < n \<Longrightarrow> h ! a = IterableGenerator len g seed idx prev \<Longrightarrow>
     sequence_at n h a (generated g 0 seed len)"
| seq_TakeArray:
    "a < n \<Longrightarrow> h ! a = TakeArrayIterable xs cnt idx \<Longrightarrow> sequence_at n h a (take cnt xs)"
| seq_AppendPrependArray:
    "a < n \<Longrightarrow> h ! a = AppendPrependArrayIterable xs app item has idx \<Longrightarrow>
     sequence_at n h a (with_item app True item xs)"
| seq_Take:
    "a < n \<Longrightarrow> h ! a = TakeIterable src it cnt idx \<Longrightarrow> sequence_at n h src ys \<Longrightarrow>
     sequence_at n h a (take cnt ys)"
| seq_AppendPrepend:
    "a < n \<Longrightarrow> h ! a = AppendPrependIterable src it app item has \<Longrightarrow> sequence_at n h src ys \<Longrightarrow>
     sequence_at n h a (with_item app True item ys)"
| seq_Map:
    "a < n \<Longrightarrow> h ! a = MapIterable src it f \<Longrightarrow> sequence_at n h src ys \<Longrightarrow>
     sequence_at n h a (map f ys)"
| seq_Filter:
    "a < n \<Longrightarrow> h ! a = FilterIterable src it pr \<Longrightarrow> sequence_at n h src ys \<Longrightarrow>
     sequence_at n h a (filter pr ys)"

definition stepped ::
  "heap \<Rightarrow> addr \<Rightarrow> addr set \<Rightarrow> jsval list \<Rightarrow> IteratorResult \<Rightarrow> heap \<Rightarrow> bool" where
  "stepped h a A ys r h' \<longleftrightarrow>
     length h' = length h \<and> (\<forall>b. b \<notin> A \<longrightarrow> h' ! b = h ! b) \<and>
     (case ys of
        [] \<Rightarrow> rdone r \<and> cursor_at h' a A []
      | y # ys' \<Rightarrow> r = iteratorResult y \<and> cursor_at h' a A ys')"

definition fresh_cursor :: "heap \<Rightarrow> heap \<Rightarrow> addr \<Rightarrow> jsval list \<Rightarrow> bool" where
  "fresh_cursor h h' c ys \<longleftrightarrow>
     (\<exists>new A. h' = h @ new \<and> cursor_at h' c A ys \<and> (\<forall>b \<in> A. length h \<le> b))"

definition counted :: "nat \<Rightarrow> heap \<Rightarrow> (error + nat \<times> heap) option" where
  "counted n h' = (if n \<le> MAX_SAFE_INTEGER then Some (Inr (n, h')) else Some (Inl count_overflow))"

section \<open>Properties of the terminal operations\<close>



subsection \<open>min and max\<close>

text \<open>
  Claim C1 says that \<open>min()\<close> and \<open>max()\<close> return \<open>undefined\<close> exactly on the empty
  sequence and otherwise an element that is minimal (maximal) for the comparator. The
  loop of \<open>min\<close> tests its accumulator with \<open>if (value)\<close>, so an accumulator that is
  \<open>0\<close> counts as not yet set and the next element replaces it without a comparison. On
  \<open>[0, 5]\<close> \<open>min\<close> returns \<open>5\<close> with or without a comparator, although \<open>0\<close>
  compares \<open>Less\<close> in the natural ordering, and on \<open>[0, -5]\<close> \<open>max\<close> returns
  \<open>-5\<close> although \<open>0\<close> compares \<open>Greater\<close>.
\<close>

theorem min_max_falsy_accumulator:
  "min_query compare [JNum 0, JNum 5] = JNum 5
   \<and> compareNatural (JNum 0) (JNum 5) = Some Less
   \<and> max_query compare [JNum 0, JNum (- 5)] = JNum (- 5)
   \<and> compareNatural (JNum 0) (JNum (- 5)) = Some Greater"
  by (simp add: min_query_def max_query_def)

text \<open>
  Where every element is truthy the loops do what the claim says: for a comparator whose
  \<open>Less\<close> (for \<open>max\<close>, \<open>Greater\<close>) is irreflexive and transitive, the result is an
  element of the sequence that no element compares \<open>Less\<close> (\<open>Greater\<close>) than.
\<close>

lemma min_query_empty: "min_query compare [] = JUndefined"
  by (simp add: min_query_def)

lemma min_loop_minimal:
  assumes irrefl: "\<And>x. cmp x x \<noteq> Some Less"
    and trans: "\<And>x y z. cmp x y = Some Less \<Longrightarrow> cmp y z = Some Less \<Longrightarrow> cmp x z = Some Less"
  shows "truthy v \<Longrightarrow> \<forall>e \<in> set xs. truthy e \<Longrightarrow>
         min_loop cmp v xs \<in> insert v (set xs)
         \<and> (min_loop cmp v xs = v \<or> cmp (min_loop cmp v xs) v = Some Less)
         \<and> (\<forall>e \<in> set xs. cmp e (min_loop cmp v xs) \<noteq> Some Less)"
proof (induction xs arbitrary: v)
  case Nil
  then show ?case by simp
next
  case (Cons e es)
  let ?v' = "if cmp e v = Some Less then e else v"
  let ?r = "min_loop cmp ?v' es"
  have tv: "truthy ?v'" using Cons.prems by simp
  have ih: "?r \<in> insert ?v' (set es)" "?r = ?v' \<or> cmp ?r ?v' = Some Less"
    "\<forall>x \<in> set es. cmp x ?r \<noteq> Some Less"
    using Cons.IH [OF tv] Cons.prems by auto
  have r: "min_loop cmp v (e # es) = ?r" using Cons.prems by simp
  have 1: "?r \<in> insert v (set (e # es))" using ih(1) by (auto split: if_splits)
  have 2: "?r = v \<or> cmp ?r v = Some Less"
    using ih(2) trans by (auto split: if_splits)
  have 3: "cmp e ?r \<noteq> Some Less"
  proof
    assume l: "cmp e ?r = Some Less"
    show False
    proof (cases "cmp e v = Some Less")
      case True
      then have "?r = e \<or> cmp ?r e = Some Less" using ih(2) by simp
      then show False using l irrefl trans by metis
    next
      case False
      then have "?r = v \<or> cmp ?r v = Some Less" using ih(2) by simp
      then show False using l False trans by metis
    qed
  qed
  show ?case unfolding r using 1 2 3 ih(3) by simp
qed

lemma min_query_truthy_minimal:
  assumes "\<And>x. resolve_compare compare x x \<noteq> Some Less"
    and "\<And>x y z. resolve_compare compare x y = Some Less \<Longrightarrow>
           resolve_compare compare y z = Some Less \<Longrightarrow> resolve_compare compare x z = Some Less"
    and "xs \<noteq> []" and "\<forall>e \<in> set xs. truthy e"
  shows "min_query compare xs \<in> set xs
       \<and> (\<forall>e \<in> set xs. resolve_compare compare e (min_query compare xs) \<noteq> Some Less)"
proof -
  obtain x es where xs: "xs = x # es" using assms(3) by (cases xs) auto
  let ?cmp = "resolve_compare compare"
  have m: "min_query compare xs = min_loop ?cmp x es"
    by (simp add: min_query_def xs)
  have "truthy x" "\<forall>e \<in> set es. truthy e" using assms(4) xs by auto
  then have r: "min_loop ?cmp x es \<in> insert x (set es)"
    "min_loop ?cmp x es = x \<or> ?cmp (min_loop ?cmp x es) x = Some Less"
    "\<forall>e \<in> set es. ?cmp e (min_loop ?cmp x es) \<noteq> Some Less"
    using min_loop_minimal [of ?cmp x es, OF assms(1,2)] by auto
  have "?cmp x (min_loop ?cmp x es) \<noteq> Some Less"
    using r(2) assms(1,2) by metis
  then show ?thesis using r m xs by auto
qed

lemma max_query_empty: "max_query compare [] = JUndefined"
  by (simp add: max_query_def)

lemma max_loop_maximal:
  assumes irrefl: "\<And>x. cmp x x \<noteq> Some Greater"
    and trans: "\<And>x y z. cmp x y = Some Greater \<Longrightarrow> cmp y z = Some Greater \<Longrightarrow>
                  cmp x z = Some Greater"
  shows "truthy v \<Longrightarrow> \<forall>e \<in> set xs. truthy e \<Longrightarrow>
         max_loop cmp v xs \<in> insert v (set xs)
         \<and> (max_loop cmp v xs = v \<or> cmp (max_loop cmp v xs) v = Some Greater)
         \<and> (\<forall>e \<in> set xs. cmp e (max_loop cmp v xs) \<noteq> Some Greater)"
proof (induction xs arbitrary: v)
  case Nil
  then show ?case by simp
next
  case (Cons e es)
  let ?v' = "if cmp e v = Some Greater then e else v"
  let ?r = "max_loop cmp ?v' es"
  have tv: "truthy ?v'" using Cons.prems by simp
  have ih: "?r \<in> insert ?v' (set es)" "?r = ?v' \<or> cmp ?r ?v' = Some Greater"
    "\<forall>x \<in> set es. cmp x ?r \<noteq> Some Greater"
    using Cons.IH [OF tv] Cons.prems by auto
  have r: "max_loop cmp v (e # es) = ?r" using Cons.prems by simp
  have 1: "?r \<in> insert v (set (e # es))" using ih(1) by (auto split: if_splits)
  have 2: "?r = v \<or> cmp ?r v = Some Greater"
    using ih(2) trans by (auto split: if_splits)
  have 3: "cmp e ?r \<noteq> Some Greater"
  proof
    assume l: "cmp e ?r = Some Greater"
    show False
    proof (cases "cmp e v = Some Greater")
      case True
      then have "?r = e \<or> cmp ?r e = Some Greater" using ih(2) by simp
      then show False using l irrefl trans by metis
    next
      case False
      then have "?r = v \<or> cmp ?r v = Some Greater" using ih(2) by simp
      then show False using l False trans by metis
    qed
  qed
  show ?case unfolding r using 1 2 3 ih(3) by simp
qed

lemma max_query_truthy_maximal:
  assumes "\<And>x. resolve_compare compare x x \<noteq> Some Greater"
    and "\<And>x y z. resolve_compare compare x y = Some Greater \<Longrightarrow>
           resolve_compare compare y z = Some Greater \<Longrightarrow>
           resolve_compare compare x z = Some Greater"
    and "xs \<noteq> []" and "\<forall>e \<in> set xs. truthy e"
  shows "max_query compare xs \<in> set xs
       \<and> (\<forall>e \<in> set xs. resolve_compare compare e (max_query compare xs) \<noteq> Some Greater)"
proof -
  obtain x es where xs: "xs = x # es" using assms(3) by (cases xs) auto
  let ?cmp = "resolve_compare compare"
  have m: "max_query compare xs = max_loop ?cmp x es"
    by (simp add: max_query_def xs)
  have "truthy x" "\<forall>e \<in> set es. truthy e" using assms(4) xs by auto
  then have r: "max_loop ?cmp x es \<in> insert x (set es)"
    "max_loop ?cmp x es = x \<or> ?cmp (max_loop ?cmp x es) x = Some Greater"
    "\<forall>e \<in> set es. ?cmp e (max_loop ?cmp x es) \<noteq> Some Greater"
    using max_loop_maximal [of ?cmp x es, OF assms(1,2)] by auto
  have "?cmp x (max_loop ?cmp x es) \<noteq> Some Greater"
    using r(2) assms(1,2) by metis
  then show ?thesis using r m xs by auto
qed

subsection \<open>reduce and fold\<close>

lemma reduce_loop_foldl: "reduce_loop reducer result xs = foldl reducer result xs"
  by (induction xs arbitrary: result) auto

lemma reduce_empty: "reduce reducer [] = JUndefined"
  by (simp add: reduce_def)

lemma reduce_truthy_first:
  "truthy e \<Longrightarrow> reduce reducer (e # es) = foldl reducer e es"
  by (simp add: reduce_def reduce_loop_foldl)

text \<open>
  Claim C2 says that \<open>reduce(f)\<close> on \<open>e1..en\<close> is the left fold seeded with \<open>e1\<close>.
  \<open>reduce\<close> enters its loop only under \<open>if (result)\<close>, where \<open>result\<close> is the first
  element: when the first element is falsy the rest of the sequence is never read. On
  \<open>[0, 1, 2]\<close> every reducer gives \<open>0\<close>; with addition the left fold is \<open>3\<close>.
\<close>

theorem reduce_falsy_first:
  "reduce reducer [JNum 0, JNum 1, JNum 2] = JNum 0"
  by (simp add: reduce_def)

subsection \<open>single\<close>

text \<open>
  Claim C8 says that \<open>single()\<close> returns \<open>undefined\<close> when the sequence has more than one
  element, and \<open>single(predicate)\<close> when more than one element matches. \<open>single\<close> tests
  \<open>if (!result)\<close> to decide whether an element was already seen, so a falsy first
  element is overwritten by the second: on \<open>[0, 5]\<close> both forms return \<open>5\<close>.
\<close>

theorem single_falsy_first:
  "single None [JNum 0, JNum 5] = JNum 5
   \<and> single (Some (\<lambda>e. True)) [JNum 0, JNum 5] = JNum 5"
  by (simp add: single_def)

text \<open>Where the elements (for a predicate, the matching elements) are truthy, \<open>single\<close>
  returns the only (matching) element and \<open>undefined\<close> otherwise.\<close>

lemma single_truthy:
  assumes "\<forall>e \<in> set xs. truthy e"
  shows "single None xs = (case xs of [e] \<Rightarrow> e | _ \<Rightarrow> JUndefined)"
proof (cases xs)
  case Nil
  then show ?thesis by (simp add: single_def)
next
  case (Cons e es)
  then show ?thesis using assms by (cases es) (simp_all add: single_def)
qed

lemma single_loop_pred_seen:
  "truthy r \<Longrightarrow>
   single_loop_pred p r xs = (if filter p xs = [] then r else JUndefined)"
  by (induction xs) auto

lemma single_pred_truthy:
  assumes "\<forall>e \<in> set xs. p e \<longrightarrow> truthy e"
  shows "single (Some p) xs = (case filter p xs of [e] \<Rightarrow> e | _ \<Rightarrow> JUndefined)"
proof -
  have "single_loop_pred p JUndefined xs = (case filter p xs of [e] \<Rightarrow> e | _ \<Rightarrow> JUndefined)"
    using assms
  proof (induction xs)
    case Nil
    then show ?case by simp
  next
    case (Cons x xs)
    show ?case
    proof (cases "p x")
      case True
      then have "truthy x" using Cons.prems by simp
      then show ?thesis using True
        by (simp add: single_loop_pred_seen split: list.splits)
    next
      case False
      then show ?thesis using Cons by simp
    qed
  qed
  then show ?thesis by (simp add: single_def)
qed

subsection \<open>sort and sortBy\<close>

lemma ToString_2: "ToString (JNum 2) = ''2''"
  by (simp add: digits_of.simps digit_char_def)

lemma ToString_10: "ToString (JNum 10) = ''10''"
  by (simp add: digits_of.simps digit_char_def)

text \<open>
  Claim C7 says that \<open>sort()\<close> with no comparator orders by the natural order of the
  element type. Without a comparator \<open>sort\<close> calls \<open>array.sort()\<close> with no comparison
  function, and the host then orders the elements by their strings: \<open>[2, 10]\<close> comes back
  as \<open>[10, 2]\<close> although \<open>2\<close> compares \<open>Less\<close> than \<open>10\<close>. The sibling paths
  (\<open>sortDecending()\<close>, \<open>sortBy(k)\<close>) pass a comparison function built on the natural
  comparison.
\<close>

theorem sort_default_is_by_string:
  "sort_query None [JNum 2, JNum 10] = [JNum 10, JNum 2]
   \<and> compareNatural (JNum 2) (JNum 10) = Some Less"
  by (simp add: sort_query_def Array_sort_def SortCompare_def ToString_2 ToString_10
      del: ToString.simps)

text \<open>The example of the spec for \<open>sortBy\<close>: the two entries of key 2 keep their order.\<close>

lemma sortBy_stable_example:
  "sortBy (\<lambda>x. get_prop x ''key'') None
     [JObj 0 [(''key'', JNum 2), (''v'', JStr ''a'')],
      JObj 1 [(''key'', JNum 1), (''v'', JStr ''b'')],
      JObj 2 [(''key'', JNum 2), (''v'', JStr ''c'')]]
   = [JObj 1 [(''key'', JNum 1), (''v'', JStr ''b'')],
      JObj 0 [(''key'', JNum 2), (''v'', JStr ''a'')],
      JObj 2 [(''key'', JNum 2), (''v'', JStr ''c'')]]"
  by (simp add: sortBy_def Array_sort_def SortCompare_def)

section \<open>Properties of cursors, sequences and pipelines\<close>

subsection \<open>Frame properties of the invariants\<close>

text \<open>
  A cursor depends only on the cells it owns, and a restartable sequence only on the
  cells below its bound: changes elsewhere, and new objects, leave both as they are.
\<close>

lemma cur_owner: "cursor_at h a A ys \<Longrightarrow> a \<in> A \<and> (\<forall>b \<in> A. b < length h)"
  by (induction rule: cursor_at.induct) auto

lemma cur_frame:
  "cursor_at h a A ys \<Longrightarrow> length h' = length h \<Longrightarrow> \<forall>b \<in> A. h' ! b = h ! b \<Longrightarrow> cursor_at h' a A ys"
proof (induction rule: cursor_at.induct)
  case (cur_Take a h src it cnt idx A ys)
  then show ?case by (auto intro!: cursor_at.cur_Take)
next
  case (cur_AppendPrepend a h src it app item has A ys)
  then show ?case by (auto intro!: cursor_at.cur_AppendPrepend)
next
  case (cur_Map a h src it f A ys)
  then show ?case by (auto intro!: cursor_at.cur_Map)
next
  case (cur_Filter a h src it pr A ys)
  then show ?case by (auto intro!: cursor_at.cur_Filter)
qed (auto intro: cursor_at.intros)

lemma cur_extend:
  "cursor_at h a A ys \<Longrightarrow> cursor_at (h @ new) a A ys"
proof (induction rule: cursor_at.induct)
  case (cur_Take a h src it cnt idx A ys)
  then show ?case by (auto intro!: cursor_at.cur_Take simp: nth_append)
next
  case (cur_AppendPrepend a h src it app item has A ys)
  then show ?case by (auto intro!: cursor_at.cur_AppendPrepend simp: nth_append)
next
  case (cur_Map a h src it f A ys)
  then show ?case by (auto intro!: cursor_at.cur_Map simp: nth_append)
next
  case (cur_Filter a h src it pr A ys)
  then show ?case by (auto intro!: cursor_at.cur_Filter simp: nth_append)
qed (auto intro: cursor_at.intros simp: nth_append)

lemma seq_frame:
  "sequence_at n h a ys \<Longrightarrow> \<forall>b < n. h' ! b = h ! b \<Longrightarrow> sequence_at n h' a ys"
  by (induction rule: sequence_at.induct) (auto intro: sequence_at.intros)

lemma seq_mono: "sequence_at n h a ys \<Longrightarrow> n \<le> m \<Longrightarrow> sequence_at m h a ys"
  by (induction rule: sequence_at.induct) (auto intro: sequence_at.intros)

subsection \<open>One step of each class of cursor\<close>

text \<open>
  For each class, \<open>next()\<close> on a cursor that will yield \<open>ys\<close> returns the head of
  \<open>ys\<close> and leaves a cursor for the tail, or returns done when \<open>ys\<close> is empty and
  stays done; it writes only to the cells the cursor owns. A stage is given the same fact
  about the cursor it pulls from.
\<close>

lemma stepped_done:
  "length h' = length h \<Longrightarrow> \<forall>b. b \<notin> A \<longrightarrow> h' ! b = h ! b \<Longrightarrow> ys = [] \<Longrightarrow>
   cursor_at h' a A [] \<Longrightarrow> stepped h a A ys iteratorDone h'"
  by (simp add: stepped_def iteratorDone_def)

lemma stepped_value:
  "length h' = length h \<Longrightarrow> \<forall>b. b \<notin> A \<longrightarrow> h' ! b = h ! b \<Longrightarrow> ys = y # ys' \<Longrightarrow>
   cursor_at h' a A ys' \<Longrightarrow> stepped h a A ys (iteratorResult y) h'"
  by (simp add: stepped_def)

lemma cur_eq: "cursor_at h a A ys \<Longrightarrow> ys = zs \<Longrightarrow> cursor_at h a A zs"
  by simp

lemma next_ArrayIterator:
  assumes "a < length h" "h ! a = ArrayIterator xs i"
  shows "\<exists>r h'. iterator_next h a = Some (r, h') \<and> stepped h a {a} (drop i xs) r h'"
proof (cases "i < length xs")
  case True
  let ?h' = "h[a := ArrayIterator xs (i + 1)]"
  have "cursor_at ?h' a {a} (drop (i + 1) xs)"
    using assms by (intro cur_ArrayIterator) auto
  then have "stepped h a {a} (drop i xs) (iteratorResult (xs ! i)) ?h'"
    using True by (intro stepped_value) (auto simp: Cons_nth_drop_Suc)
  moreover have "iterator_next h a = Some (iteratorResult (xs ! i), ?h')"
    using assms True by (subst iterator_next.simps) (simp add: lookup_def)
  ultimately show ?thesis by blast
next
  case False
  have "cursor_at h a {a} (drop i xs)"
    using assms by (intro cur_ArrayIterator) auto
  then have "stepped h a {a} (drop i xs) iteratorDone h"
    using False by (intro stepped_done) auto
  moreover have "iterator_next h a = Some (iteratorDone, h)"
    using assms False by (subst iterator_next.simps) (simp add: lookup_def)
  ultimately show ?thesis by blast
qed

lemma generated_step:
  "idx < len \<Longrightarrow>
   generated g idx prev (len - idx) = g idx prev # generated g (idx + 1) (g idx prev) (len - (idx + 1))"
proof -
  assume "idx < len"
  then have "len - idx = Suc (len - (idx + 1))" by simp
  then show ?thesis by (simp add: Let_def)
qed

lemma next_IterableGenerator:
  assumes "a < length h" "h ! a = IterableGenerator len g seed idx prev"
  shows "\<exists>r h'. iterator_next h a = Some (r, h')
           \<and> stepped h a {a} (generated g idx prev (len - idx)) r h'"
proof (cases "idx < len")
  case True
  let ?nx = "g idx prev"
  let ?h' = "h[a := IterableGenerator len g seed (idx + 1) ?nx]"
  have "cursor_at ?h' a {a} (generated g (idx + 1) ?nx (len - (idx + 1)))"
    using assms by (intro cur_Generator) auto
  then have "stepped h a {a} (generated g idx prev (len - idx)) (iteratorResult ?nx) ?h'"
    using True by (intro stepped_value) (auto simp: generated_step)
  moreover have "iterator_next h a = Some (iteratorResult ?nx, ?h')"
    using assms True by (subst iterator_next.simps) (simp add: lookup_def Let_def)
  ultimately show ?thesis by blast
next
  case False
  have "cursor_at h a {a} (generated g idx prev (len - idx))"
    using assms by (intro cur_Generator) auto
  then have "stepped h a {a} (generated g idx prev (len - idx)) iteratorDone h"
    using False by (intro stepped_done) auto
  moreover have "iterator_next h a = Some (iteratorDone, h)"
    using assms False by (subst iterator_next.simps) (simp add: lookup_def)
  ultimately show ?thesis by blast
qed

lemma next_TakeArrayIterable:
  assumes "a < length h" "h ! a = TakeArrayIterable xs cnt idx"
  shows "\<exists>r h'. iterator_next h a = Some (r, h')
           \<and> stepped h a {a} (take (cnt - idx) (drop idx xs)) r h'"
proof (cases "idx < cnt \<and> idx < length xs")
  case True
  let ?h' = "h[a := TakeArrayIterable xs cnt (idx + 1)]"
  have "cursor_at ?h' a {a} (take (cnt - (idx + 1)) (drop (idx + 1) xs))"
    using assms by (intro cur_TakeArray) auto
  moreover have "take (cnt - idx) (drop idx xs)
      = xs ! idx # take (cnt - (idx + 1)) (drop (idx + 1) xs)"
  proof -
    have "cnt - idx = Suc (cnt - (idx + 1))" using True by auto
    moreover have "drop idx xs = xs ! idx # drop (idx + 1) xs"
      using True by (simp add: Cons_nth_drop_Suc)
    ultimately show ?thesis by simp
  qed
  ultimately have "stepped h a {a} (take (cnt - idx) (drop idx xs)) (iteratorResult (xs ! idx)) ?h'"
    by (intro stepped_value) auto
  moreover have "iterator_next h a = Some (iteratorResult (xs ! idx), ?h')"
    using assms True by (subst iterator_next.simps) (simp add: lookup_def)
  ultimately show ?thesis by blast
next
  case False
  have "cursor_at h a {a} (take (cnt - idx) (drop idx xs))"
    using assms by (intro cur_TakeArray) auto
  then have "stepped h a {a} (take (cnt - idx) (drop idx xs)) iteratorDone h"
    using False by (intro stepped_done) auto
  moreover have "iterator_next h a = Some (iteratorDone, h)"
    using assms False by (subst iterator_next.simps) (auto simp add: lookup_def)
  ultimately show ?thesis by blast
qed

lemma next_AppendPrependArrayIterable:
  assumes "a < length h" "h ! a = AppendPrependArrayIterable xs app item has idx"
    and "idx \<le> length xs"
  shows "\<exists>r h'. iterator_next h a = Some (r, h')
           \<and> stepped h a {a} (with_item app has item (drop idx xs)) r h'"
proof -
  consider (finished) "\<not> has" "idx = length xs"
    | (item_last) "app" "has" "idx = length xs"
    | (item_first) "\<not> app" "has"
    | (element) "app \<or> \<not> has" "idx < length xs"
    using assms(3) by (cases app; cases has; cases "idx = length xs") auto
  then show ?thesis
  proof cases
    case finished
    have "cursor_at h a {a} (with_item app has item (drop idx xs))"
      using assms by (intro cur_AppendPrependArray) auto
    then have "stepped h a {a} (with_item app has item (drop idx xs)) iteratorDone h"
      using finished by (intro stepped_done) (auto simp: with_item_def)
    moreover have "iterator_next h a = Some (iteratorDone, h)"
      using assms finished by (subst iterator_next.simps) (simp add: lookup_def)
    ultimately show ?thesis by blast
  next
    case item_last
    let ?h' = "h[a := AppendPrependArrayIterable xs app item False idx]"
    have "cursor_at ?h' a {a} (with_item app False item (drop idx xs))"
      using assms by (intro cur_AppendPrependArray) auto
    then have "stepped h a {a} (with_item app has item (drop idx xs)) (iteratorResult item) ?h'"
      using item_last by (intro stepped_value) (auto simp: with_item_def)
    moreover have "iterator_next h a = Some (iteratorResult item, ?h')"
      using assms item_last by (subst iterator_next.simps) (simp add: lookup_def)
    ultimately show ?thesis by blast
  next
    case item_first
    let ?h' = "h[a := AppendPrependArrayIterable xs app item False idx]"
    have "cursor_at ?h' a {a} (with_item app False item (drop idx xs))"
      using assms by (intro cur_AppendPrependArray) auto
    then have "stepped h a {a} (with_item app has item (drop idx xs)) (iteratorResult item) ?h'"
      using item_first by (intro stepped_value) (auto simp: with_item_def)
    moreover have "iterator_next h a = Some (iteratorResult item, ?h')"
      using assms item_first by (subst iterator_next.simps) (simp add: lookup_def)
    ultimately show ?thesis by blast
  next
    case element
    let ?h' = "h[a := AppendPrependArrayIterable xs app item has (idx + 1)]"
    have d: "drop idx xs = xs ! idx # drop (idx + 1) xs"
      using element by (simp add: Cons_nth_drop_Suc)
    have "cursor_at ?h' a {a} (with_item app has item (drop (idx + 1) xs))"
      using assms element by (intro cur_AppendPrependArray) auto
    then have "stepped h a {a} (with_item app has item (drop idx xs))
                 (iteratorResult (xs ! idx)) ?h'"
      using element d by (intro stepped_value) (auto simp: with_item_def)
    moreover have "iterator_next h a = Some (iteratorResult (xs ! idx), ?h')"
      using assms element
      by (subst iterator_next.simps) (auto simp add: lookup_def array_get_def)
    ultimately show ?thesis by blast
  qed
qed

lemma next_TakeIterable:
  assumes "a < length h" "h ! a = TakeIterable src it cnt idx" "idx \<le> cnt" "a \<notin> A"
    and c: "cursor_at h it A ys"
    and inner: "\<And>h1 ys1. cursor_at h1 it A ys1 \<Longrightarrow>
                  \<exists>r h'. iterator_next h1 it = Some (r, h') \<and> stepped h1 it A ys1 r h'"
  shows "\<exists>r h'. iterator_next h a = Some (r, h')
           \<and> stepped h a (insert a A) (take (cnt - idx) ys) r h'"
proof (cases "idx = cnt")
  case True
  have "cursor_at h a (insert a A) (take (cnt - idx) ys)"
    using assms by (intro cur_Take) auto
  then have "stepped h a (insert a A) (take (cnt - idx) ys) iteratorDone h"
    using True by (intro stepped_done) auto
  moreover have "iterator_next h a = Some (iteratorDone, h)"
    using assms True by (subst iterator_next.simps) (simp add: lookup_def)
  ultimately show ?thesis by blast
next
  case False
  let ?h1 = "h[a := TakeIterable src it cnt (idx + 1)]"
  have agree: "\<forall>b \<in> A. ?h1 ! b = h ! b"
    using assms(4) by (metis nth_list_update_neq)
  have c1: "cursor_at ?h1 it A ys"
    using agree by (intro cur_frame [OF c]) auto
  obtain r h' where n: "iterator_next ?h1 it = Some (r, h')" and st: "stepped ?h1 it A ys r h'"
    using inner [OF c1] by auto
  have len: "length h' = length h" using st by (simp add: stepped_def)
  have outside: "\<forall>b. b \<notin> A \<longrightarrow> h' ! b = ?h1 ! b" using st by (simp add: stepped_def)
  have at_a: "h' ! a = TakeIterable src it cnt (idx + 1)"
    using outside assms(1,4) by simp
  have frame: "\<forall>b. b \<notin> insert a A \<longrightarrow> h' ! b = h ! b"
    using outside by auto
  have eq: "iterator_next h a = Some (r, h')"
    using assms False n by (subst iterator_next.simps) (simp add: lookup_def)
  have idx: "idx + 1 \<le> cnt" using False assms(3) by simp
  show ?thesis
  proof (cases ys)
    case Nil
    then have "rdone r" "cursor_at h' it A []" using st by (simp_all add: stepped_def)
    then have "cursor_at h' a (insert a A) (take (cnt - (idx + 1)) [])"
      using at_a len assms(1,4) idx by (intro cur_Take) auto
    then have "stepped h a (insert a A) (take (cnt - idx) ys) r h'"
      using Nil len frame \<open>rdone r\<close> by (simp add: stepped_def)
    then show ?thesis using eq by blast
  next
    case (Cons y ys')
    then have r: "r = iteratorResult y" and c': "cursor_at h' it A ys'"
      using st by (simp_all add: stepped_def)
    have "cursor_at h' a (insert a A) (take (cnt - (idx + 1)) ys')"
      using at_a len assms(1,4) idx c' by (intro cur_Take) auto
    moreover have "take (cnt - idx) ys = y # take (cnt - (idx + 1)) ys'"
    proof -
      have "cnt - idx = Suc (cnt - (idx + 1))" using idx by auto
      then show ?thesis using Cons by simp
    qed
    ultimately have "stepped h a (insert a A) (take (cnt - idx) ys) r h'"
      using len frame r by (simp add: stepped_def)
    then show ?thesis using eq by blast
  qed
qed

lemma with_item_False [simp]: "with_item app False item ys = ys"
  by (simp add: with_item_def)

lemma next_AppendPrependIterable:
  assumes "a < length h" "h ! a = AppendPrependIterable src it app item has" "a \<notin> A"
    and c: "cursor_at h it A ys"
    and inner: "\<And>h1 ys1. cursor_at h1 it A ys1 \<Longrightarrow>
                  \<exists>r h'. iterator_next h1 it = Some (r, h') \<and> stepped h1 it A ys1 r h'"
  shows "\<exists>r h'. iterator_next h a = Some (r, h')
           \<and> stepped h a (insert a A) (with_item app has item ys) r h'"
proof (cases "\<not> app \<and> has")
  case True
  let ?h' = "h[a := AppendPrependIterable src it app item False]"
  have "\<forall>b \<in> A. ?h' ! b = h ! b"
    using assms(3) by (metis nth_list_update_neq)
  then have "cursor_at ?h' it A ys" using c by (intro cur_frame [OF c]) auto
  then have "cursor_at ?h' a (insert a A) (with_item app False item ys)"
    using assms(1,3) by (intro cur_AppendPrepend) auto
  then have "stepped h a (insert a A) (with_item app has item ys) (iteratorResult item) ?h'"
    using True by (intro stepped_value) (auto simp: with_item_def)
  moreover have "iterator_next h a = Some (iteratorResult item, ?h')"
    using assms True by (subst iterator_next.simps) (simp add: lookup_def)
  ultimately show ?thesis by blast
next
  case False
  obtain nx h1 where n: "iterator_next h it = Some (nx, h1)" and st: "stepped h it A ys nx h1"
    using inner [OF c] by auto
  have len: "length h1 = length h" using st by (simp add: stepped_def)
  have outside: "\<forall>b. b \<notin> A \<longrightarrow> h1 ! b = h ! b" using st by (simp add: stepped_def)
  have at_a: "h1 ! a = AppendPrependIterable src it app item has"
    using outside assms(2,3) by simp
  have frame: "\<forall>b. b \<notin> insert a A \<longrightarrow> h1 ! b = h ! b" using outside by auto
  show ?thesis
  proof (cases ys)
    case Nil
    then have d: "rdone nx" and c1: "cursor_at h1 it A []" using st by (simp_all add: stepped_def)
    show ?thesis
    proof (cases has)
      case True
      then have app: app using False by simp
      let ?h' = "h1[a := AppendPrependIterable src it app item False]"
      have "\<forall>b \<in> A. ?h' ! b = h1 ! b"
        using assms(3) by (metis nth_list_update_neq)
      then have "cursor_at ?h' it A []" by (intro cur_frame [OF c1]) auto
      then have "cursor_at ?h' a (insert a A) (with_item app False item [])"
        using assms(1,3) len by (intro cur_AppendPrepend) auto
      moreover have "\<forall>b. b \<notin> insert a A \<longrightarrow> ?h' ! b = h ! b"
        using frame by auto
      ultimately have "stepped h a (insert a A) (with_item app has item ys) (iteratorResult item) ?h'"
        using True app Nil len by (intro stepped_value) (auto simp: with_item_def)
      moreover have "iterator_next h a = Some (iteratorResult item, ?h')"
        using assms True app n d by (subst iterator_next.simps) (simp add: lookup_def)
      ultimately show ?thesis by blast
    next
      case no_item: False
      have "cursor_at h1 a (insert a A) (with_item app has item [])"
        using at_a assms(1,3) len c1 by (intro cur_AppendPrepend) auto
      then have "stepped h a (insert a A) (with_item app has item ys) nx h1"
        using no_item Nil len frame d by (simp add: stepped_def)
      moreover have "iterator_next h a = Some (nx, h1)"
        using assms no_item n by (subst iterator_next.simps) (simp add: lookup_def)
      ultimately show ?thesis by blast
    qed
  next
    case (Cons y ys')
    then have r: "nx = iteratorResult y" and c1: "cursor_at h1 it A ys'"
      using st by (simp_all add: stepped_def)
    have "cursor_at h1 a (insert a A) (with_item app has item ys')"
      using at_a assms(1,3) len c1 by (intro cur_AppendPrepend) auto
    moreover have "with_item app has item ys = y # with_item app has item ys'"
      using False Cons by (auto simp: with_item_def)
    ultimately have "stepped h a (insert a A) (with_item app has item ys) nx h1"
      using len frame r by (simp add: stepped_def)
    moreover have "iterator_next h a = Some (nx, h1)"
      using assms False n r
      by (subst iterator_next.simps) (auto simp add: lookup_def iteratorResult_def)
    ultimately show ?thesis by blast
  qed
qed

lemma next_MapIterable:
  assumes "a < length h" "h ! a = MapIterable src it f" "a \<notin> A"
    and c: "cursor_at h it A ys"
    and inner: "\<And>h1 ys1. cursor_at h1 it A ys1 \<Longrightarrow>
                  \<exists>r h'. iterator_next h1 it = Some (r, h') \<and> stepped h1 it A ys1 r h'"
  shows "\<exists>r h'. iterator_next h a = Some (r, h')
           \<and> stepped h a (insert a A) (map f ys) r h'"
proof -
  obtain nx h1 where n: "iterator_next h it = Some (nx, h1)" and st: "stepped h it A ys nx h1"
    using inner [OF c] by auto
  have len: "length h1 = length h" using st by (simp add: stepped_def)
  have outside: "\<forall>b. b \<notin> A \<longrightarrow> h1 ! b = h ! b" using st by (simp add: stepped_def)
  have at_a: "h1 ! a = MapIterable src it f" using outside assms(2,3) by simp
  have frame: "\<forall>b. b \<notin> insert a A \<longrightarrow> h1 ! b = h ! b" using outside by auto
  show ?thesis
  proof (cases ys)
    case Nil
    then have d: "rdone nx" and c1: "cursor_at h1 it A []" using st by (simp_all add: stepped_def)
    have "cursor_at h1 a (insert a A) (map f [])"
      using at_a assms(1,3) len c1 by (intro cur_Map) auto
    then have "stepped h a (insert a A) (map f ys) iteratorDone h1"
      using Nil len frame by (intro stepped_done) auto
    moreover have "iterator_next h a = Some (iteratorDone, h1)"
      using assms n d by (subst iterator_next.simps) (simp add: lookup_def)
    ultimately show ?thesis by blast
  next
    case (Cons y ys')
    then have r: "nx = iteratorResult y" and c1: "cursor_at h1 it A ys'"
      using st by (simp_all add: stepped_def)
    have "cursor_at h1 a (insert a A) (map f ys')"
      using at_a assms(1,3) len c1 by (intro cur_Map) auto
    then have "stepped h a (insert a A) (map f ys) (iteratorResult (f y)) h1"
      using Cons len frame by (intro stepped_value) auto
    moreover have "iterator_next h a = Some (iteratorResult (f y), h1)"
      using assms n r by (subst iterator_next.simps) (simp add: lookup_def iteratorResult_def)
    ultimately show ?thesis by blast
  qed
qed

lemma next_FilterIterable:
  assumes inner: "\<And>h1 ys1. cursor_at h1 it A ys1 \<Longrightarrow>
                  \<exists>r h'. iterator_next h1 it = Some (r, h') \<and> stepped h1 it A ys1 r h'"
    and "a \<notin> A"
  shows "a < length h \<Longrightarrow> h ! a = FilterIterable src it pr \<Longrightarrow> cursor_at h it A ys \<Longrightarrow>
         \<exists>r h'. iterator_next h a = Some (r, h')
           \<and> stepped h a (insert a A) (filter pr ys) r h'"
proof (induction ys arbitrary: h)
  case Nil
  obtain nx h1 where n: "iterator_next h it = Some (nx, h1)" and st: "stepped h it A [] nx h1"
    using inner [OF Nil(3)] by auto
  have len: "length h1 = length h" and outside: "\<forall>b. b \<notin> A \<longrightarrow> h1 ! b = h ! b"
    and d: "rdone nx" and c1: "cursor_at h1 it A []"
    using st by (simp_all add: stepped_def)
  have at_a: "h1 ! a = FilterIterable src it pr" using outside Nil(2) assms(2) by simp
  have "cursor_at h1 a (insert a A) (filter pr [])"
    using at_a Nil(1) assms(2) len c1 by (intro cur_Filter) auto
  then have "stepped h a (insert a A) (filter pr []) iteratorDone h1"
    using len outside by (intro stepped_done) auto
  moreover have "iterator_next h a = Some (iteratorDone, h1)"
    using Nil(1,2) n d by (subst iterator_next.simps) (simp add: lookup_def)
  ultimately show ?case by blast
next
  case (Cons y ys')
  obtain nx h1 where n: "iterator_next h it = Some (nx, h1)"
    and st: "stepped h it A (y # ys') nx h1"
    using inner [OF Cons.prems(3)] by auto
  have len: "length h1 = length h" and outside: "\<forall>b. b \<notin> A \<longrightarrow> h1 ! b = h ! b"
    and r: "nx = iteratorResult y" and c1: "cursor_at h1 it A ys'"
    using st by (simp_all add: stepped_def)
  have at_a: "h1 ! a = FilterIterable src it pr" using outside Cons.prems(2) assms(2) by simp
  have a1: "a < length h1" using len Cons.prems(1) by simp
  show ?case
  proof (cases "pr y")
    case True
    have "cursor_at h1 a (insert a A) (filter pr ys')"
      using at_a a1 assms(2) c1 by (intro cur_Filter) auto
    then have "stepped h a (insert a A) (filter pr (y # ys')) (iteratorResult y) h1"
      using True len outside by (intro stepped_value) auto
    moreover have "iterator_next h a = Some (iteratorResult y, h1)"
      using Cons.prems(1,2) n r True
      by (subst iterator_next.simps) (simp add: lookup_def iteratorResult_def)
    ultimately show ?thesis by blast
  next
    case False
    obtain r' h' where n': "iterator_next h1 a = Some (r', h')"
      and st': "stepped h1 a (insert a A) (filter pr ys') r' h'"
      using Cons.IH [OF a1 at_a c1] by blast
    have "iterator_next h a = iterator_next h1 a"
      using Cons.prems(1,2) n r False
      by (subst iterator_next.simps) (simp add: lookup_def iteratorResult_def)
    moreover have "stepped h a (insert a A) (filter pr (y # ys')) r' h'"
      using st' False len outside by (auto simp: stepped_def)
    ultimately show ?thesis using n' by auto
  qed
qed

subsection \<open>Every cursor steps and drains\<close>

text \<open>By induction on the number of cells a cursor owns.\<close>

lemma cursor_at_finite: "cursor_at h a A ys \<Longrightarrow> finite A"
  by (induction rule: cursor_at.induct) auto

lemma next_cur:
  "cursor_at h a A ys \<Longrightarrow> \<exists>r h'. iterator_next h a = Some (r, h') \<and> stepped h a A ys r h'"
proof (induction "card A" arbitrary: h a A ys rule: less_induct)
  case less
  have inner: "\<exists>r h'. iterator_next h1 it = Some (r, h') \<and> stepped h1 it A' ys1 r h'"
    if "cursor_at h1 it A' ys1" "card A' < card A" for h1 it A' ys1
    using less.hyps [OF that(2) that(1)] .
  have smaller: "card A' < card (insert a A')" if "cursor_at h it A' ys'" "a \<notin> A'" for it A' ys'
    using cursor_at_finite [OF that(1)] that(2) by simp
  show ?case
    using less.prems
  proof (cases rule: cursor_at.cases)
    case (cur_ArrayIterator xs i)
    then show ?thesis using next_ArrayIterator [of a h xs i] by simp
  next
    case (cur_Generator len g seed idx prev)
    then show ?thesis using next_IterableGenerator [of a h len g seed idx prev] by simp
  next
    case (cur_TakeArray xs cnt idx)
    then show ?thesis using next_TakeArrayIterable [of a h xs cnt idx] by simp
  next
    case (cur_AppendPrependArray xs app item has idx)
    then show ?thesis
      using next_AppendPrependArrayIterable [of a h xs app item has idx] by simp
  next
    case (cur_Take src it cnt idx A' ys')
    have lt: "card A' < card A" using smaller [OF cur_Take(6,7)] cur_Take(1) by simp
    show ?thesis
      unfolding cur_Take(1,2)
      using cur_Take(3-7) inner [OF _ lt] by (intro next_TakeIterable) auto
  next
    case (cur_AppendPrepend src it app item has A' ys')
    have lt: "card A' < card A"
      using smaller [OF cur_AppendPrepend(5,6)] cur_AppendPrepend(1) by simp
    show ?thesis
      unfolding cur_AppendPrepend(1,2)
      using cur_AppendPrepend(3-6) inner [OF _ lt] by (intro next_AppendPrependIterable) auto
  next
    case (cur_Map src it f A' ys')
    have lt: "card A' < card A" using smaller [OF cur_Map(5,6)] cur_Map(1) by simp
    show ?thesis
      unfolding cur_Map(1,2)
      using cur_Map(3-6) inner [OF _ lt] by (intro next_MapIterable) auto
  next
    case (cur_Filter src it pr A' ys')
    have lt: "card A' < card A" using smaller [OF cur_Filter(5,6)] cur_Filter(1) by simp
    show ?thesis
      unfolding cur_Filter(1,2)
      using cur_Filter(3-6) inner [OF _ lt] by (intro next_FilterIterable) auto
  qed
qed

lemma drain_cur:
  "cursor_at h a A ys \<Longrightarrow>
   \<exists>h'. drain h a = Some (ys, h') \<and> length h' = length h
        \<and> (\<forall>b. b \<notin> A \<longrightarrow> h' ! b = h ! b) \<and> cursor_at h' a A []"
proof (induction ys arbitrary: h)
  case Nil
  then obtain r h' where n: "iterator_next h a = Some (r, h')" and st: "stepped h a A [] r h'"
    using next_cur by blast
  then have "drain h a = Some ([], h')"
    by (subst drain.simps) (simp add: stepped_def)
  then show ?case using st by (auto simp: stepped_def)
next
  case (Cons y ys)
  then obtain r h1 where n: "iterator_next h a = Some (r, h1)"
    and st: "stepped h a A (y # ys) r h1"
    using next_cur by blast
  then have r: "r = iteratorResult y" and c1: "cursor_at h1 a A ys"
    and len: "length h1 = length h" and fr: "\<forall>b. b \<notin> A \<longrightarrow> h1 ! b = h ! b"
    by (simp_all add: stepped_def)
  obtain h' where d: "drain h1 a = Some (ys, h')" and len': "length h' = length h1"
    and fr': "\<forall>b. b \<notin> A \<longrightarrow> h' ! b = h1 ! b" and c': "cursor_at h' a A []"
    using Cons.IH [OF c1] by blast
  have "drain h a = Some (y # ys, h')"
    using n r d by (subst drain.simps) (simp add: iteratorResult_def)
  then show ?case using len len' fr fr' c' by auto
qed

subsection \<open>A new cursor for every restartable sequence\<close>

text \<open>
  \<open>[Symbol.iterator]()\<close> on a restartable sequence only creates objects, and the cursor
  it returns owns none of the objects that existed before.
\<close>

lemma fresh_cursor_alloc:
  assumes "ob = ArrayIterator xs 0 \<and> ys = xs
         \<or> ob = IterableGenerator len g seed 0 seed \<and> ys = generated g 0 seed len
         \<or> ob = TakeArrayIterable xs cnt 0 \<and> ys = take cnt xs
         \<or> ob = AppendPrependArrayIterable xs app item True 0 \<and> ys = with_item app True item xs"
  shows "fresh_cursor h (h @ [ob]) (length h) ys"
proof -
  have "cursor_at (h @ [ob]) (length h) {length h} ys"
    using assms
  proof (elim disjE conjE)
    assume "ob = ArrayIterator xs 0" "ys = xs"
    then show ?thesis
      using cur_ArrayIterator [of "length h" "h @ [ob]" xs 0] by simp
  next
    assume "ob = IterableGenerator len g seed 0 seed" "ys = generated g 0 seed len"
    then show ?thesis
      using cur_Generator [of "length h" "h @ [ob]" len g seed 0 seed] by simp
  next
    assume "ob = TakeArrayIterable xs cnt 0" "ys = take cnt xs"
    then show ?thesis
      using cur_TakeArray [of "length h" "h @ [ob]" xs cnt 0] by simp
  next
    assume "ob = AppendPrependArrayIterable xs app item True 0" "ys = with_item app True item xs"
    then show ?thesis
      using cur_AppendPrependArray [of "length h" "h @ [ob]" xs app item True 0] by simp
  qed
  then show ?thesis unfolding fresh_cursor_def by blast
qed

lemma fresh_cursor_wrap:
  assumes f: "fresh_cursor h h1 it ys"
    and ob: "ob = TakeIterable src it cnt 0 \<and> zs = take cnt ys
           \<or> ob = AppendPrependIterable src it app item True \<and> zs = with_item app True item ys
           \<or> ob = MapIterable src it f \<and> zs = map f ys
           \<or> ob = FilterIterable src it pr \<and> zs = filter pr ys"
  shows "fresh_cursor h (h1 @ [ob]) (length h1) zs"
proof -
  obtain new A where h1: "h1 = h @ new" and c: "cursor_at h1 it A ys" and fr: "\<forall>b \<in> A. length h \<le> b"
    using f unfolding fresh_cursor_def by blast
  let ?c = "length h1" and ?h' = "h1 @ [ob]"
  have c': "cursor_at ?h' it A ys" using c by (rule cur_extend)
  have notin: "?c \<notin> A" using cur_owner [OF c] by auto
  have "cursor_at ?h' ?c (insert ?c A) zs"
    using ob
  proof (elim disjE conjE)
    assume "ob = TakeIterable src it cnt 0" "zs = take cnt ys"
    then show ?thesis
      using cur_Take [of ?c ?h' src it cnt 0 A ys] c' notin by simp
  next
    assume "ob = AppendPrependIterable src it app item True" "zs = with_item app True item ys"
    then show ?thesis
      using cur_AppendPrepend [of ?c ?h' src it app item True A ys] c' notin by simp
  next
    assume "ob = MapIterable src it f" "zs = map f ys"
    then show ?thesis
      using cur_Map [of ?c ?h' src it f A ys] c' notin by simp
  next
    assume "ob = FilterIterable src it pr" "zs = filter pr ys"
    then show ?thesis
      using cur_Filter [of ?c ?h' src it pr A ys] c' notin by simp
  qed
  moreover have "\<forall>b \<in> insert ?c A. length h \<le> b" using fr h1 by auto
  moreover have "?h' = h @ (new @ [ob])" using h1 by simp
  ultimately show ?thesis unfolding fresh_cursor_def by blast
qed

lemma symbol_iterator_seq:
  "sequence_at n h a ys \<Longrightarrow> n \<le> length h \<Longrightarrow>
   \<exists>c h'. symbol_iterator h a = Some (c, h') \<and> fresh_cursor h h' c ys"
proof (induction rule: sequence_at.induct)
  case (seq_Array a n h xs)
  then have "symbol_iterator h a = Some (length h, h @ [ArrayIterator xs 0])"
    by (subst symbol_iterator.simps) (simp add: lookup_def alloc_def)
  then show ?case using fresh_cursor_alloc [where ob = "ArrayIterator xs 0" and ys = xs] by simp
next
  case (seq_ArrayQuery a n h xs)
  then have "symbol_iterator h a = Some (length h, h @ [ArrayIterator xs 0])"
    by (subst symbol_iterator.simps) (simp add: lookup_def alloc_def)
  then show ?case using fresh_cursor_alloc [where ob = "ArrayIterator xs 0" and ys = xs] by simp
next
  case (seq_Query a n h s ys)
  then have "symbol_iterator h a = symbol_iterator h s"
    by (subst symbol_iterator.simps) (simp add: lookup_def)
  then show ?case using seq_Query by simp
next
  case (seq_Generator a n h len g seed idx prev)
  let ?ob = "IterableGenerator len g seed 0 seed"
  have "symbol_iterator h a = Some (length h, h @ [?ob])"
    using seq_Generator by (subst symbol_iterator.simps) (simp add: lookup_def alloc_def)
  then show ?case
    using fresh_cursor_alloc [where ob = ?ob and ys = "generated g 0 seed len"] by simp
next
  case (seq_TakeArray a n h xs cnt idx)
  let ?ob = "TakeArrayIterable xs cnt 0"
  have "symbol_iterator h a = Some (length h, h @ [?ob])"
    using seq_TakeArray by (subst symbol_iterator.simps) (simp add: lookup_def alloc_def)
  then show ?case
    using fresh_cursor_alloc [where ob = ?ob and ys = "take cnt xs"] by simp
next
  case (seq_AppendPrependArray a n h xs app item has idx)
  let ?ob = "AppendPrependArrayIterable xs app item True 0"
  have "symbol_iterator h a = Some (length h, h @ [?ob])"
    using seq_AppendPrependArray
    by (subst symbol_iterator.simps) (simp add: lookup_def alloc_def)
  then show ?case
    using fresh_cursor_alloc [where ob = ?ob and ys = "with_item app True item xs"] by simp
next
  case (seq_Take a n h src it cnt idx ys)
  then obtain it' h1 where s: "symbol_iterator h src = Some (it', h1)"
    and f: "fresh_cursor h h1 it' ys" by blast
  let ?ob = "TakeIterable src it' cnt 0"
  have "symbol_iterator h a = Some (length h1, h1 @ [?ob])"
    using seq_Take.hyps seq_Take.prems s
    by (subst symbol_iterator.simps) (simp add: lookup_def alloc_def)
  then show ?case
    using fresh_cursor_wrap [OF f, where ob = ?ob and zs = "take cnt ys"] by simp
next
  case (seq_AppendPrepend a n h src it app item has ys)
  then obtain it' h1 where s: "symbol_iterator h src = Some (it', h1)"
    and f: "fresh_cursor h h1 it' ys" by blast
  let ?ob = "AppendPrependIterable src it' app item True"
  have "symbol_iterator h a = Some (length h1, h1 @ [?ob])"
    using seq_AppendPrepend.hyps seq_AppendPrepend.prems s
    by (subst symbol_iterator.simps) (simp add: lookup_def alloc_def)
  then show ?case
    using fresh_cursor_wrap [OF f, where ob = ?ob and zs = "with_item app True item ys"] by simp
next
  case (seq_Map a n h src it f ys)
  then obtain it' h1 where s: "symbol_iterator h src = Some (it', h1)"
    and fc: "fresh_cursor h h1 it' ys" by blast
  let ?ob = "MapIterable src it' f"
  have "symbol_iterator h a = Some (length h1, h1 @ [?ob])"
    using seq_Map.hyps seq_Map.prems s
    by (subst symbol_iterator.simps) (simp add: lookup_def alloc_def)
  then show ?case
    using fresh_cursor_wrap [OF fc, where ob = ?ob and zs = "map f ys"] by simp
next
  case (seq_Filter a n h src it pr ys)
  then obtain it' h1 where s: "symbol_iterator h src = Some (it', h1)"
    and fc: "fresh_cursor h h1 it' ys" by blast
  let ?ob = "FilterIterable src it' pr"
  have "symbol_iterator h a = Some (length h1, h1 @ [?ob])"
    using seq_Filter.hyps seq_Filter.prems s
    by (subst symbol_iterator.simps) (simp add: lookup_def alloc_def)
  then show ?case
    using fresh_cursor_wrap [OF fc, where ob = ?ob and zs = "filter pr ys"] by simp
qed

subsection \<open>Traversal preserves the store\<close>

lemma preserves_iff:
  "preserves h h' \<longleftrightarrow> length h \<le> length h' \<and> (\<forall>b < length h. h' ! b = h ! b)"
proof
  assume p: "preserves h h'"
  then have t: "take (length h) h' = h" by (simp add: preserves_def)
  have "length (take (length h) h') = length h" using t by simp
  then have l: "length h \<le> length h'" by simp
  have "h' ! b = h ! b" if "b < length h" for b
  proof -
    have "take (length h) h' ! b = h' ! b" using that by simp
    then show ?thesis using t by simp
  qed
  then show "length h \<le> length h' \<and> (\<forall>b < length h. h' ! b = h ! b)" using l by simp
next
  assume a: "length h \<le> length h' \<and> (\<forall>b < length h. h' ! b = h ! b)"
  show "preserves h h'"
    unfolding preserves_def
  proof (rule nth_equalityI)
    show "length (take (length h) h') = length h" using a by simp
    show "take (length h) h' ! i = h ! i" if "i < length (take (length h) h')" for i
      using that a by simp
  qed
qed

lemma preserves_refl [simp]: "preserves h h"
  by (simp add: preserves_def)

lemma preserves_append [simp]: "preserves h (h @ new)"
  by (simp add: preserves_def)

lemma preserves_trans: "preserves h h1 \<Longrightarrow> preserves h1 h2 \<Longrightarrow> preserves h h2"
  by (auto simp: preserves_iff)

lemma seq_preserves:
  assumes "sequence_at n h a ys" "n \<le> length h" "preserves h h'"
  shows "sequence_at (length h') h' a ys"
proof -
  have fr: "\<forall>b < n. h' ! b = h ! b" and le: "n \<le> length h'"
    using assms(2,3) by (auto simp: preserves_iff)
  have "sequence_at n h' a ys" by (rule seq_frame [OF assms(1) fr])
  then show ?thesis using le by (rule seq_mono)
qed

lemma fresh_cursor_preserves: "fresh_cursor h h1 c ys \<Longrightarrow> preserves h h1"
  by (auto simp: fresh_cursor_def)

lemma fresh_cursor_drain:
  assumes "fresh_cursor h h1 c ys"
  shows "\<exists>h2. drain h1 c = Some (ys, h2) \<and> preserves h h2 \<and> fresh_cursor h h2 c []"
proof -
  obtain new A where h1: "h1 = h @ new" and c: "cursor_at h1 c A ys" and fr: "\<forall>b \<in> A. length h \<le> b"
    using assms unfolding fresh_cursor_def by blast
  obtain h2 where d: "drain h1 c = Some (ys, h2)" and len: "length h2 = length h1"
    and out: "\<forall>b. b \<notin> A \<longrightarrow> h2 ! b = h1 ! b" and c2: "cursor_at h2 c A []"
    using drain_cur [OF c] by blast
  have "h2 ! b = h ! b" if "b < length h" for b
  proof -
    have "b \<notin> A" using fr that by auto
    then have "h2 ! b = h1 ! b" using out by simp
    then show ?thesis using h1 that by (simp add: nth_append)
  qed
  then have p: "preserves h h2"
    unfolding preserves_iff using len h1 by simp
  have "h @ drop (length h) h2 = take (length h) h2 @ drop (length h) h2"
    using p by (simp add: preserves_def)
  then have "h2 = h @ drop (length h) h2" by simp
  then have "fresh_cursor h h2 c []"
    unfolding fresh_cursor_def using c2 fr by blast
  then show ?thesis using d p by blast
qed

lemma fresh_cursor_next:
  assumes "fresh_cursor h h1 c ys"
  shows "\<exists>r h2. iterator_next h1 c = Some (r, h2) \<and> preserves h h2 \<and> rdone r = (ys = [])"
proof -
  obtain new A where h1: "h1 = h @ new" and c: "cursor_at h1 c A ys" and fr: "\<forall>b \<in> A. length h \<le> b"
    using assms unfolding fresh_cursor_def by blast
  obtain r h2 where n: "iterator_next h1 c = Some (r, h2)" and st: "stepped h1 c A ys r h2"
    using next_cur [OF c] by blast
  have len: "length h2 = length h1" and out: "\<forall>b. b \<notin> A \<longrightarrow> h2 ! b = h1 ! b"
    using st by (simp_all add: stepped_def)
  have "h2 ! b = h ! b" if "b < length h" for b
  proof -
    have "b \<notin> A" using fr that by auto
    then have "h2 ! b = h1 ! b" using out by simp
    then show ?thesis using h1 that by (simp add: nth_append)
  qed
  then have "preserves h h2"
    unfolding preserves_iff using len h1 by simp
  moreover have "rdone r = (ys = [])"
    using st by (cases ys) (auto simp: stepped_def iteratorResult_def)
  ultimately show ?thesis using n by blast
qed

lemma toArray_seq:
  assumes "sequence_at n h a ys" "n \<le> length h"
  shows "\<exists>h'. toArray h a = Some (ys, h') \<and> preserves h h'"
proof -
  obtain c h1 where s: "symbol_iterator h a = Some (c, h1)" and f: "fresh_cursor h h1 c ys"
    using symbol_iterator_seq [OF assms] by blast
  obtain h2 where "drain h1 c = Some (ys, h2)" "preserves h h2"
    using fresh_cursor_drain [OF f] by blast
  then show ?thesis using s by (auto simp: toArray_def)
qed

lemma isEmpty_query_seq:
  assumes "sequence_at n h a ys" "n \<le> length h"
  shows "\<exists>h'. isEmpty_query h a = Some (ys = [], h') \<and> preserves h h'"
proof -
  obtain c h1 where s: "symbol_iterator h a = Some (c, h1)" and f: "fresh_cursor h h1 c ys"
    using symbol_iterator_seq [OF assms] by blast
  obtain r h2 where "iterator_next h1 c = Some (r, h2)" "preserves h h2" "rdone r = (ys = [])"
    using fresh_cursor_next [OF f] by blast
  then show ?thesis using s by (auto simp: isEmpty_query_def)
qed

subsection \<open>Stages and handles over a restartable sequence\<close>

lemma stage_over_seq:
  assumes sq: "sequence_at n h s ys" and n: "n \<le> length h" and f: "fresh_cursor h h1 it ys"
    and ob: "ob = TakeIterable s it cnt 0 \<and> zs = take cnt ys
           \<or> ob = AppendPrependIterable s it app item True \<and> zs = with_item app True item ys
           \<or> ob = MapIterable s it f \<and> zs = map f ys
           \<or> ob = FilterIterable s it pr \<and> zs = filter pr ys"
  shows "sequence_at (length (h1 @ [ob])) (h1 @ [ob]) (length h1) zs"
    and "fresh_cursor h (h1 @ [ob]) (length h1) zs"
    and "preserves h (h1 @ [ob])"
proof -
  let ?h' = "h1 @ [ob]"
  have p1: "preserves h h1" using f by (rule fresh_cursor_preserves)
  show p: "preserves h ?h'" by (rule preserves_trans [OF p1]) (rule preserves_append)
  have s': "sequence_at (length ?h') ?h' s ys" using sq n p by (rule seq_preserves)
  show "sequence_at (length ?h') ?h' (length h1) zs"
    using ob
  proof (elim disjE conjE)
    assume "ob = TakeIterable s it cnt 0" "zs = take cnt ys"
    then show ?thesis
      using seq_Take [of "length h1" "length ?h'" ?h' s it cnt 0 ys] s' by simp
  next
    assume "ob = AppendPrependIterable s it app item True" "zs = with_item app True item ys"
    then show ?thesis
      using seq_AppendPrepend [of "length h1" "length ?h'" ?h' s it app item True ys] s' by simp
  next
    assume "ob = MapIterable s it f" "zs = map f ys"
    then show ?thesis
      using seq_Map [of "length h1" "length ?h'" ?h' s it f ys] s' by simp
  next
    assume "ob = FilterIterable s it pr" "zs = filter pr ys"
    then show ?thesis
      using seq_Filter [of "length h1" "length ?h'" ?h' s it pr ys] s' by simp
  qed
  show "fresh_cursor h ?h' (length h1) zs"
    using f ob by (rule fresh_cursor_wrap)
qed

lemma new_TakeIterable_seq:
  assumes "sequence_at n h s ys" "n \<le> length h" "0 \<le> k"
  shows "\<exists>it h1. new_TakeIterable h s k
             = Some (Inr (length h1, h1 @ [TakeIterable s it (nat k) 0]))
           \<and> fresh_cursor h h1 it ys"
proof -
  obtain it h1 where "symbol_iterator h s = Some (it, h1)" "fresh_cursor h h1 it ys"
    using symbol_iterator_seq [OF assms(1,2)] by blast
  then show ?thesis using assms(3) by (auto simp: new_TakeIterable_def alloc_def)
qed

lemma new_AppendPrependIterable_seq:
  assumes "sequence_at n h s ys" "n \<le> length h"
  shows "\<exists>it h1. new_AppendPrependIterable h s item app
             = Some (length h1, h1 @ [AppendPrependIterable s it app item True])
           \<and> fresh_cursor h h1 it ys"
proof -
  obtain it h1 where "symbol_iterator h s = Some (it, h1)" "fresh_cursor h h1 it ys"
    using symbol_iterator_seq [OF assms(1,2)] by blast
  then show ?thesis by (auto simp: new_AppendPrependIterable_def alloc_def)
qed

lemma query_over_seq:
  assumes "sequence_at (length h) h c ys" "c < length h"
  shows "sequence_at (length (h @ [IterableQuery c])) (h @ [IterableQuery c]) (length h) ys"
proof -
  let ?h' = "h @ [IterableQuery c]"
  have "sequence_at (length ?h') ?h' c ys"
    using assms(1) by (rule seq_preserves) simp_all
  then show ?thesis
    using seq_Query [of "length h" "length ?h'" ?h' c ys] by simp
qed

lemma take_query_seq:
  assumes "sequence_at n h s ys" "n \<le> length h" "0 \<le> k"
  shows "\<exists>t h'. take_query h s k = Some (Inr (t, h')) \<and> preserves h h' \<and> length h \<le> t
           \<and> sequence_at (length h') h' t (take (nat k) ys)"
proof -
  obtain it h1 where c: "new_TakeIterable h s k
      = Some (Inr (length h1, h1 @ [TakeIterable s it (nat k) 0]))"
    and f: "fresh_cursor h h1 it ys"
    using new_TakeIterable_seq [OF assms] by blast
  let ?ob = "TakeIterable s it (nat k) 0"
  let ?h2 = "h1 @ [?ob]"
  let ?h' = "?h2 @ [IterableQuery (length h1)]"
  have sq: "sequence_at (length ?h2) ?h2 (length h1) (take (nat k) ys)" and p: "preserves h ?h2"
    using stage_over_seq [OF assms(1,2) f, where ob = ?ob and zs = "take (nat k) ys"] by auto
  have "sequence_at (length ?h') ?h' (length ?h2) (take (nat k) ys)"
    using sq by (rule query_over_seq) simp
  moreover have "preserves h ?h'"
    by (rule preserves_trans [OF p]) (rule preserves_append)
  moreover have "length h \<le> length ?h2"
    using p by (simp add: preserves_iff)
  moreover have "take_query h s k = Some (Inr (length ?h2, ?h'))"
    using c by (simp add: take_query_def new_IterableQuery_def alloc_def)
  ultimately show ?thesis by blast
qed

lemma append_prepend_query_seq:
  assumes "sequence_at n h s ys" "n \<le> length h"
  shows "\<exists>t h'. (if app then append_query h s v else prepend_query h s v) = Some (t, h')
           \<and> preserves h h' \<and> length h \<le> t
           \<and> sequence_at (length h') h' t (with_item app True v ys)"
proof -
  obtain it h1 where c: "new_AppendPrependIterable h s v app
      = Some (length h1, h1 @ [AppendPrependIterable s it app v True])"
    and f: "fresh_cursor h h1 it ys"
    using new_AppendPrependIterable_seq [OF assms] by blast
  let ?ob = "AppendPrependIterable s it app v True"
  let ?h2 = "h1 @ [?ob]"
  let ?h' = "?h2 @ [IterableQuery (length h1)]"
  have sq: "sequence_at (length ?h2) ?h2 (length h1) (with_item app True v ys)"
    and p: "preserves h ?h2"
    using stage_over_seq [OF assms(1,2) f, where ob = ?ob and zs = "with_item app True v ys"]
    by auto
  have "sequence_at (length ?h') ?h' (length ?h2) (with_item app True v ys)"
    using sq by (rule query_over_seq) simp
  moreover have "preserves h ?h'"
    by (rule preserves_trans [OF p]) (rule preserves_append)
  moreover have "length h \<le> length ?h2"
    using p by (simp add: preserves_iff)
  moreover have "(if app then append_query h s v else prepend_query h s v)
      = Some (length ?h2, ?h')"
    using c by (cases app) (simp_all add: append_query_def prepend_query_def
        new_IterableQuery_def alloc_def)
  ultimately show ?thesis by blast
qed

lemma map_query_seq:
  assumes "sequence_at n h s ys" "n \<le> length h"
  shows "\<exists>t h'. map_query h s f = Some (t, h') \<and> preserves h h' \<and> length h \<le> t
           \<and> sequence_at (length h') h' t (map f ys)"
proof -
  obtain it h1 where si: "symbol_iterator h s = Some (it, h1)" and fc: "fresh_cursor h h1 it ys"
    using symbol_iterator_seq [OF assms] by blast
  let ?ob = "MapIterable s it f"
  let ?h2 = "h1 @ [?ob]"
  let ?h' = "?h2 @ [IterableQuery (length h1)]"
  have sq: "sequence_at (length ?h2) ?h2 (length h1) (map f ys)" and p: "preserves h ?h2"
    using stage_over_seq [OF assms(1,2) fc, where ob = ?ob and zs = "map f ys"] by auto
  have "sequence_at (length ?h') ?h' (length ?h2) (map f ys)"
    using sq by (rule query_over_seq) simp
  moreover have "preserves h ?h'"
    by (rule preserves_trans [OF p]) (rule preserves_append)
  moreover have "length h \<le> length ?h2"
    using p by (simp add: preserves_iff)
  moreover have "map_query h s f = Some (length ?h2, ?h')"
    using si by (simp add: map_query_def new_MapIterable_def new_IterableQuery_def alloc_def)
  ultimately show ?thesis by blast
qed

lemma filter_query_seq:
  assumes "sequence_at n h s ys" "n \<le> length h"
  shows "\<exists>t h'. filter_query h s pr = Some (t, h') \<and> preserves h h' \<and> length h \<le> t
           \<and> sequence_at (length h') h' t (filter pr ys)"
proof -
  obtain it h1 where si: "symbol_iterator h s = Some (it, h1)" and fc: "fresh_cursor h h1 it ys"
    using symbol_iterator_seq [OF assms] by blast
  let ?ob = "FilterIterable s it pr"
  let ?h2 = "h1 @ [?ob]"
  let ?h' = "?h2 @ [IterableQuery (length h1)]"
  have sq: "sequence_at (length ?h2) ?h2 (length h1) (filter pr ys)" and p: "preserves h ?h2"
    using stage_over_seq [OF assms(1,2) fc, where ob = ?ob and zs = "filter pr ys"] by auto
  have "sequence_at (length ?h') ?h' (length ?h2) (filter pr ys)"
    using sq by (rule query_over_seq) simp
  moreover have "preserves h ?h'"
    by (rule preserves_trans [OF p]) (rule preserves_append)
  moreover have "length h \<le> length ?h2"
    using p by (simp add: preserves_iff)
  moreover have "filter_query h s pr = Some (length ?h2, ?h')"
    using si by (simp add: filter_query_def new_FilterIterable_def new_IterableQuery_def alloc_def)
  ultimately show ?thesis by blast
qed

subsection \<open>Pipelines build restartable sequences\<close>

lemma seq_bound: "sequence_at n h a ys \<Longrightarrow> a < n"
  by (induction rule: sequence_at.induct) auto

lemma elements_with_item:
  "elements (Append p v) = with_item True True v (elements p)"
  "elements (Prepend p v) = with_item False True v (elements p)"
  "elements (FromAppendPrependArray xs item app) = with_item app True item xs"
  by (simp_all add: with_item_def)

lemma build_source_seq:
  assumes "ob = IterableArrayQuery xs \<and> ys = xs
         \<or> ob = JSArray xs \<and> ys = xs
         \<or> ob = IterableGenerator len g seed 0 seed \<and> ys = generated g 0 seed len
         \<or> ob = TakeArrayIterable xs cnt 0 \<and> ys = take cnt xs
         \<or> ob = AppendPrependArrayIterable xs app item True 0 \<and> ys = with_item app True item xs"
  shows "sequence_at (length (h @ [ob])) (h @ [ob]) (length h) ys"
  using assms
proof (elim disjE conjE)
  assume "ob = IterableArrayQuery xs" "ys = xs"
  then show ?thesis
    using seq_ArrayQuery [of "length h" "length (h @ [ob])" "h @ [ob]" xs] by simp
next
  assume "ob = JSArray xs" "ys = xs"
  then show ?thesis
    using seq_Array [of "length h" "length (h @ [ob])" "h @ [ob]" xs] by simp
next
  assume "ob = IterableGenerator len g seed 0 seed" "ys = generated g 0 seed len"
  then show ?thesis
    using seq_Generator [of "length h" "length (h @ [ob])" "h @ [ob]" len g seed 0 seed] by simp
next
  assume "ob = TakeArrayIterable xs cnt 0" "ys = take cnt xs"
  then show ?thesis
    using seq_TakeArray [of "length h" "length (h @ [ob])" "h @ [ob]" xs cnt 0] by simp
next
  assume "ob = AppendPrependArrayIterable xs app item True 0" "ys = with_item app True item xs"
  then show ?thesis
    using seq_AppendPrependArray [of "length h" "length (h @ [ob])" "h @ [ob]" xs app item True 0]
    by simp
qed

lemma build_wrapped_source:
  assumes "sequence_at (length (h @ [ob])) (h @ [ob]) (length h) ys"
  shows "preserves h (h @ [ob, IterableQuery (length h)])
       \<and> length h \<le> Suc (length h)
       \<and> sequence_at (length (h @ [ob, IterableQuery (length h)])) (h @ [ob, IterableQuery (length h)])
           (Suc (length h)) ys"
proof -
  have "sequence_at (length ((h @ [ob]) @ [IterableQuery (length h)]))
          ((h @ [ob]) @ [IterableQuery (length h)]) (length (h @ [ob])) ys"
    using assms by (rule query_over_seq) simp
  moreover have "preserves h (h @ [ob, IterableQuery (length h)])"
    by (rule preserves_append)
  ultimately show ?thesis by simp
qed

lemma build_seq:
  "build h p = Some (Inr (s, h0)) \<Longrightarrow>
   preserves h h0 \<and> length h \<le> s \<and> sequence_at (length h0) h0 s (elements p)"
proof (induction p arbitrary: h s h0)
  case (FromValues xs)
  then have "s = length h" "h0 = h @ [IterableArrayQuery xs]"
    by (auto simp: Query_from_def new_IterableArrayQuery_def alloc_def)
  then show ?case
    using build_source_seq [where ob = "IterableArrayQuery xs" and ys = xs and h = h] by simp
next
  case (FromArray xs)
  then have "s = Suc (length h)" "h0 = h @ [JSArray xs, IterableQuery (length h)]"
    by (auto simp: Query_fromIterable_def new_IterableQuery_def alloc_def)
  then show ?case
    using build_wrapped_source [OF build_source_seq [where ob = "JSArray xs" and ys = xs and h = h]]
    by simp
next
  case (Generate len g seed)
  let ?ob = "IterableGenerator (nat len) g seed 0 seed"
  have "s = Suc (length h)" "h0 = h @ [?ob, IterableQuery (length h)]"
    using Generate
    by (auto simp: Query_generate_def new_IterableGenerator_def new_IterableQuery_def alloc_def
        split: if_splits)
  then show ?case
    using build_wrapped_source [OF build_source_seq
        [where ob = ?ob and ys = "generated g 0 seed (nat len)" and h = h]]
    by simp
next
  case (FromTakeArray xs n)
  let ?ob = "TakeArrayIterable xs (nat n) 0"
  have "s = Suc (length h)" "h0 = h @ [?ob, IterableQuery (length h)]"
    using FromTakeArray
    by (auto simp: new_TakeArrayIterable_def Query_fromIterable_def new_IterableQuery_def
        alloc_def split: if_splits)
  then show ?case
    using build_wrapped_source [OF build_source_seq
        [where ob = ?ob and ys = "take (nat n) xs" and h = h]]
    by simp
next
  case (FromAppendPrependArray xs item app)
  let ?ob = "AppendPrependArrayIterable xs app item True 0"
  have "s = Suc (length h)" "h0 = h @ [?ob, IterableQuery (length h)]"
    using FromAppendPrependArray
    by (auto simp: new_AppendPrependArrayIterable_def Query_fromIterable_def
        new_IterableQuery_def alloc_def)
  then show ?case
    using build_wrapped_source [OF build_source_seq
        [where ob = ?ob and ys = "with_item app True item xs" and h = h]]
    by (simp only: elements_with_item) simp
next
  case (Take p n)
  then obtain s1 h1 where b: "build h p = Some (Inr (s1, h1))"
    and t: "take_query h1 s1 n = Some (Inr (s, h0))"
    by (auto split: bind_splits sum.splits)
  have n: "0 \<le> n"
    using t by (auto simp: take_query_def new_TakeIterable_def split: if_splits)
  have ih: "preserves h h1" "length h \<le> s1" "sequence_at (length h1) h1 s1 (elements p)"
    using Take.IH [OF b] by auto
  obtain t' h' where "take_query h1 s1 n = Some (Inr (t', h'))" "preserves h1 h'"
    "length h1 \<le> t'" "sequence_at (length h') h' t' (take (nat n) (elements p))"
    using take_query_seq [OF ih(3) _ n] by auto
  then show ?case
    using t ih(1) by (auto intro: preserves_trans simp: preserves_iff)
next
  case (Append p v)
  then obtain s1 h1 where b: "build h p = Some (Inr (s1, h1))"
    and t: "append_query h1 s1 v = Some (s, h0)"
    by (auto split: bind_splits sum.splits)
  have ih: "preserves h h1" "length h \<le> s1" "sequence_at (length h1) h1 s1 (elements p)"
    using Append.IH [OF b] by auto
  obtain t' h' where "append_query h1 s1 v = Some (t', h')" "preserves h1 h'"
    "length h1 \<le> t'" "sequence_at (length h') h' t' (elements p @ [v])"
    using append_prepend_query_seq [OF ih(3), where app = True and v = v]
    by (auto simp: with_item_def)
  then show ?case
    using t ih(1) by (auto intro: preserves_trans simp: preserves_iff)
next
  case (Prepend p v)
  then obtain s1 h1 where b: "build h p = Some (Inr (s1, h1))"
    and t: "prepend_query h1 s1 v = Some (s, h0)"
    by (auto split: bind_splits sum.splits)
  have ih: "preserves h h1" "length h \<le> s1" "sequence_at (length h1) h1 s1 (elements p)"
    using Prepend.IH [OF b] by auto
  obtain t' h' where "prepend_query h1 s1 v = Some (t', h')" "preserves h1 h'"
    "length h1 \<le> t'" "sequence_at (length h') h' t' (v # elements p)"
    using append_prepend_query_seq [OF ih(3), where app = False and v = v]
    by (auto simp: with_item_def)
  then show ?case
    using t ih(1) by (auto intro: preserves_trans simp: preserves_iff)
next
  case (Map p f)
  then obtain s1 h1 where b: "build h p = Some (Inr (s1, h1))"
    and t: "map_query h1 s1 f = Some (s, h0)"
    by (auto split: bind_splits sum.splits)
  have ih: "preserves h h1" "length h \<le> s1" "sequence_at (length h1) h1 s1 (elements p)"
    using Map.IH [OF b] by auto
  obtain t' h' where "map_query h1 s1 f = Some (t', h')" "preserves h1 h'"
    "length h1 \<le> t'" "sequence_at (length h') h' t' (map f (elements p))"
    using map_query_seq [OF ih(3), where f = f] by auto
  then show ?case
    using t ih(1) by (auto intro: preserves_trans simp: preserves_iff)
next
  case (Filter p pr)
  then obtain s1 h1 where b: "build h p = Some (Inr (s1, h1))"
    and t: "filter_query h1 s1 pr = Some (s, h0)"
    by (auto split: bind_splits sum.splits)
  have ih: "preserves h h1" "length h \<le> s1" "sequence_at (length h1) h1 s1 (elements p)"
    using Filter.IH [OF b] by auto
  obtain t' h' where "filter_query h1 s1 pr = Some (t', h')" "preserves h1 h'"
    "length h1 \<le> t'" "sequence_at (length h') h' t' (filter pr (elements p))"
    using filter_query_seq [OF ih(3), where pr = pr] by auto
  then show ?case
    using t ih(1) by (auto intro: preserves_trans simp: preserves_iff)
qed

subsection \<open>Counting\<close>

lemma count_loop_cur:
  "cursor_at h it A ys \<Longrightarrow> k \<le> MAX_SAFE_INTEGER \<Longrightarrow>
   \<exists>h'. count_loop h it k = counted (k + length ys) h' \<and> length h' = length h
        \<and> (\<forall>b. b \<notin> A \<longrightarrow> h' ! b = h ! b)"
proof (induction ys arbitrary: h k)
  case Nil
  then obtain r h' where n: "iterator_next h it = Some (r, h')" and st: "stepped h it A [] r h'"
    using next_cur by blast
  then have "count_loop h it k = Some (Inr (k, h'))"
    by (subst count_loop.simps) (simp add: stepped_def)
  then show ?case using st Nil.prems by (auto simp: stepped_def counted_def)
next
  case (Cons y ys)
  then obtain r h1 where n: "iterator_next h it = Some (r, h1)"
    and st: "stepped h it A (y # ys) r h1"
    using next_cur by blast
  then have r: "\<not> rdone r" and c1: "cursor_at h1 it A ys"
    and len: "length h1 = length h" and fr: "\<forall>b. b \<notin> A \<longrightarrow> h1 ! b = h ! b"
    by (simp_all add: stepped_def iteratorResult_def)
  show ?case
  proof (cases "k + 1 > MAX_SAFE_INTEGER")
    case True
    then have "count_loop h it k = Some (Inl count_overflow)"
      using n r by (subst count_loop.simps) simp
    then have "count_loop h it k = counted (k + length (y # ys)) h"
      using True by (simp add: counted_def)
    then show ?thesis by blast
  next
    case False
    then have k1: "k + 1 \<le> MAX_SAFE_INTEGER" by simp
    obtain h' where d: "count_loop h1 it (k + 1) = counted (k + 1 + length ys) h'"
      and len': "length h' = length h1" and fr': "\<forall>b. b \<notin> A \<longrightarrow> h' ! b = h1 ! b"
      using Cons.IH [OF c1 k1] by blast
    have "count_loop h it k = count_loop h1 it (k + 1)"
      using n r False by (subst count_loop.simps) simp
    then have "count_loop h it k = counted (k + length (y # ys)) h'"
      using d by simp
    then show ?thesis using len len' fr fr' by auto
  qed
qed

lemma count_traverse_seq:
  assumes "sequence_at n h a ys" "n \<le> length h"
  shows "\<exists>h'. count_traverse h a = counted (length ys) h' \<and> preserves h h'"
proof -
  obtain c h1 where s: "symbol_iterator h a = Some (c, h1)" and f: "fresh_cursor h h1 c ys"
    using symbol_iterator_seq [OF assms] by blast
  obtain new A where h1: "h1 = h @ new" and c: "cursor_at h1 c A ys" and fr: "\<forall>b \<in> A. length h \<le> b"
    using f unfolding fresh_cursor_def by blast
  obtain h2 where d: "count_loop h1 c 0 = counted (0 + length ys) h2"
    and len: "length h2 = length h1" and out: "\<forall>b. b \<notin> A \<longrightarrow> h2 ! b = h1 ! b"
    using count_loop_cur [OF c, of 0] by (auto simp: MAX_SAFE_INTEGER_def)
  have "h2 ! b = h ! b" if "b < length h" for b
  proof -
    have "b \<notin> A" using fr that by auto
    then have "h2 ! b = h1 ! b" using out by simp
    then show ?thesis using h1 that by (simp add: nth_append)
  qed
  then have "preserves h h2"
    unfolding preserves_iff using len h1 by simp
  moreover have "count_traverse h a = counted (length ys) h2"
    using s d by (simp add: count_traverse_def)
  ultimately show ?thesis by blast
qed

lemma getSizedIterableCount_seq:
  "sequence_at n h a ys \<Longrightarrow> n \<le> length h \<Longrightarrow>
   getSizedIterableCount h a = Some (Inr (None, h))
   \<or> (\<exists>h'. preserves h h' \<and>
        getSizedIterableCount h a
          = (if length ys \<le> MAX_SAFE_INTEGER then Some (Inr (Some (length ys), h'))
             else Some (Inl count_overflow)))"
proof (induction rule: sequence_at.induct)
  case (seq_Query a n h s ys)
  then have "getSizedIterableCount h a = getSizedIterableCount h s"
    by (subst getSizedIterableCount.simps) (simp add: lookup_def)
  then show ?case using seq_Query by simp
next
  case (seq_ArrayQuery a n h xs)
  then have sq: "sequence_at n h a xs" by (intro sequence_at.seq_ArrayQuery)
  obtain h' where c: "count_traverse h a = counted (length xs) h'" and p: "preserves h h'"
    using count_traverse_seq [OF sq seq_ArrayQuery.prems] by blast
  have "getSizedIterableCount h a
      = (if length xs \<le> MAX_SAFE_INTEGER then Some (Inr (Some (length xs), h'))
         else Some (Inl count_overflow))"
    using seq_ArrayQuery c
    by (subst getSizedIterableCount.simps) (simp add: lookup_def counted_def)
  then show ?case using p by blast
qed (subst getSizedIterableCount.simps, simp add: lookup_def)+

lemma count_query_seq:
  assumes sq: "sequence_at n h a ys" and n: "n \<le> length h"
  shows "\<exists>h'. count_query h a = counted (length ys) h' \<and> preserves h h'"
proof (cases "\<exists>iterable. h ! a = IterableQuery iterable")
  case False
  have a: "a < length h" using seq_bound [OF sq] n by simp
  have "count_query h a = count_traverse h a"
    using False a by (cases "h ! a") (simp_all add: count_query_def lookup_def)
  then show ?thesis using count_traverse_seq [OF sq n] by simp
next
  case True
  then obtain iterable where q: "h ! a = IterableQuery iterable" by blast
  have a: "a < length h" using seq_bound [OF sq] n by simp
  consider (unsized) "getSizedIterableCount h a = Some (Inr (None, h))"
    | (sized) h1 where "preserves h h1" "length ys \<le> MAX_SAFE_INTEGER"
        "getSizedIterableCount h a = Some (Inr (Some (length ys), h1))"
    | (overflow) "\<not> length ys \<le> MAX_SAFE_INTEGER"
        "getSizedIterableCount h a = Some (Inl count_overflow)"
    using getSizedIterableCount_seq [OF sq n] by (auto split: if_splits)
  then show ?thesis
  proof cases
    case unsized
    then have "count_query h a = count_traverse h a"
      using q a by (simp add: count_query_def lookup_def)
    then show ?thesis using count_traverse_seq [OF sq n] by simp
  next
    case sized
    show ?thesis
    proof (cases "length ys = 0")
      case nonzero: False
      then have "count_query h a = Some (Inr (length ys, h1))"
        using q a sized by (simp add: count_query_def lookup_def)
      then show ?thesis using sized by (auto simp: counted_def)
    next
      case zero: True
      have sq1: "sequence_at (length h1) h1 a ys" using sq n sized(1) by (rule seq_preserves)
      obtain h' where c: "count_traverse h1 a = counted (length ys) h'" and p: "preserves h1 h'"
        using count_traverse_seq [OF sq1] by auto
      have "count_query h a = count_traverse h1 a"
        using q a sized zero by (simp add: count_query_def lookup_def)
      then show ?thesis using c p sized(1) by (auto intro: preserves_trans)
    qed
  next
    case overflow
    then have "count_query h a = Some (Inl count_overflow)"
      using q a by (simp add: count_query_def lookup_def)
    then have "count_query h a = counted (length ys) h \<and> preserves h h"
      using overflow by (simp add: counted_def)
    then show ?thesis by blast
  qed
qed

lemma yields_seq:
  assumes "sequence_at n h a ys" "n \<le> length h"
  shows "yields h a = Some ys"
  using toArray_seq [OF assms] by (auto simp: yields_def)

subsection \<open>The for-of loop\<close>

text \<open>
  Over a restartable sequence in the store, a \<open>for (const e of this)\<close> loop run through
  the cursor protocol computes what the loop over the list of its elements computes, and
  leaves every existing object unchanged. This is the reading of \<open>for\<close> loops taken for
  the terminal operations, whose loops are instances of \<open>for_list\<close>.
\<close>

lemma for_loop_cursor:
  "cursor_at h it A ys \<Longrightarrow>
   \<exists>h'. for_loop h it body s = Some (for_list body s ys, h') \<and> length h' = length h
        \<and> (\<forall>b. b \<notin> A \<longrightarrow> h' ! b = h ! b)"
proof (induction ys arbitrary: h s)
  case Nil
  then obtain r h' where n: "iterator_next h it = Some (r, h')" and st: "stepped h it A [] r h'"
    using next_cur by blast
  then have "for_loop h it body s = Some (Inr s, h')"
    by (subst for_loop.simps) (simp add: stepped_def)
  then show ?case using st by (auto simp: stepped_def)
next
  case (Cons y ys)
  then obtain r h1 where n: "iterator_next h it = Some (r, h1)"
    and st: "stepped h it A (y # ys) r h1"
    using next_cur by blast
  then have r: "r = iteratorResult y" and c1: "cursor_at h1 it A ys"
    and len: "length h1 = length h" and fr: "\<forall>b. b \<notin> A \<longrightarrow> h1 ! b = h ! b"
    by (simp_all add: stepped_def)
  show ?case
  proof (cases "body s y")
    case (Inl v)
    then have "for_loop h it body s = Some (Inl v, h1)"
      using n r by (subst for_loop.simps) (simp add: iteratorResult_def)
    then show ?thesis using Inl len fr by auto
  next
    case (Inr s')
    obtain h' where d: "for_loop h1 it body s' = Some (for_list body s' ys, h')"
      and len': "length h' = length h1" and fr': "\<forall>b. b \<notin> A \<longrightarrow> h' ! b = h1 ! b"
      using Cons.IH [OF c1] by blast
    have "for_loop h it body s = for_loop h1 it body s'"
      using n r Inr by (subst for_loop.simps) (simp add: iteratorResult_def)
    then show ?thesis using Inr d len len' fr fr' by auto
  qed
qed

lemma for_of_sequence:
  assumes "sequence_at n h a ys" "n \<le> length h"
  shows "\<exists>h'. for_of h a body s = Some (for_list body s ys, h') \<and> preserves h h'"
proof -
  obtain c h1 where si: "symbol_iterator h a = Some (c, h1)" and f: "fresh_cursor h h1 c ys"
    using symbol_iterator_seq [OF assms] by blast
  obtain new A where h1: "h1 = h @ new" and c: "cursor_at h1 c A ys"
    and fr: "\<forall>b \<in> A. length h \<le> b"
    using f unfolding fresh_cursor_def by blast
  obtain h2 where d: "for_loop h1 c body s = Some (for_list body s ys, h2)"
    and len: "length h2 = length h1" and out: "\<forall>b. b \<notin> A \<longrightarrow> h2 ! b = h1 ! b"
    using for_loop_cursor [OF c, of body s] by blast
  have "h2 ! b = h ! b" if "b < length h" for b
  proof -
    have "b \<notin> A" using fr that by auto
    then have "h2 ! b = h1 ! b" using out by simp
    then show ?thesis using h1 that by (simp add: nth_append)
  qed
  then have "preserves h h2"
    unfolding preserves_iff using len h1 by simp
  moreover have "for_of h a body s = Some (for_list body s ys, h2)"
    using si d by (simp add: for_of_def)
  ultimately show ?thesis by blast
qed

lemma min_loop_for_list:
  "for_list (\<lambda>v e. Inr (if truthy v then (if compare e v = Some Less then e else v) else e)) v xs
     = (Inr (min_loop compare v xs) :: unit + jsval)"
  by (induction xs arbitrary: v) auto

lemma max_loop_for_list:
  "for_list (\<lambda>v e. Inr (if truthy v then (if compare e v = Some Greater then e else v) else e)) v xs
     = (Inr (max_loop compare v xs) :: unit + jsval)"
  by (induction xs arbitrary: v) auto

lemma single_loop_for_list:
  "(case for_list (\<lambda>result e. if \<not> truthy result then Inr e else Inl JUndefined) result xs of
      Inl v \<Rightarrow> v | Inr v \<Rightarrow> v)
     = single_loop result xs"
  by (induction xs arbitrary: result) auto

lemma single_loop_pred_for_list:
  "(case for_list (\<lambda>result e. if predicate e
                                then (if \<not> truthy result then Inr e else Inl JUndefined)
                                else Inr result) result xs of
      Inl v \<Rightarrow> v | Inr v \<Rightarrow> v)
     = single_loop_pred predicate result xs"
  by (induction xs arbitrary: result) auto



lemma fold_loop_for_list:
  "for_list (\<lambda>result e. Inr (combine result e)) result xs = Inr (fold_loop combine result xs)"
  by (induction xs arbitrary: result) auto

subsection \<open>Pipelines always build\<close>

text \<open>A pipeline always builds: it returns a handle, or the error of an invalid count.\<close>

lemma take_query_negative:
  "n < 0 \<Longrightarrow> \<exists>e. take_query h s n = Some (Inl e)"
  by (simp add: take_query_def new_TakeIterable_def)

lemma build_returns: "\<exists>r. build h p = Some r"
proof (induction p arbitrary: h)
  case (Take p n)
  obtain r where b: "build h p = Some r" using Take.IH by blast
  show ?case
  proof (cases r)
    case (Inl e)
    then show ?thesis using b by simp
  next
    case (Inr sh)
    obtain s h1 where sh: "sh = (s, h1)" by (cases sh)
    have sq: "sequence_at (length h1) h1 s (elements p)"
      using build_seq [of h p s h1] b Inr sh by simp
    show ?thesis
    proof (cases "0 \<le> n")
      case True
      then show ?thesis using take_query_seq [OF sq _ True] b Inr sh by auto
    next
      case False
      then show ?thesis using take_query_negative [of n h1 s] b Inr sh by auto
    qed
  qed
next
  case (Append p v)
  obtain r where b: "build h p = Some r" using Append.IH by blast
  show ?case
  proof (cases r)
    case (Inl e)
    then show ?thesis using b by simp
  next
    case (Inr sh)
    obtain s h1 where sh: "sh = (s, h1)" by (cases sh)
    have sq: "sequence_at (length h1) h1 s (elements p)"
      using build_seq [of h p s h1] b Inr sh by simp
    show ?thesis
      using append_prepend_query_seq [OF sq, where app = True and v = v] b Inr sh by auto
  qed
next
  case (Prepend p v)
  obtain r where b: "build h p = Some r" using Prepend.IH by blast
  show ?case
  proof (cases r)
    case (Inl e)
    then show ?thesis using b by simp
  next
    case (Inr sh)
    obtain s h1 where sh: "sh = (s, h1)" by (cases sh)
    have sq: "sequence_at (length h1) h1 s (elements p)"
      using build_seq [of h p s h1] b Inr sh by simp
    show ?thesis
      using append_prepend_query_seq [OF sq, where app = False and v = v] b Inr sh by auto
  qed
next
  case (Map p f)
  obtain r where b: "build h p = Some r" using Map.IH by blast
  show ?case
  proof (cases r)
    case (Inl e)
    then show ?thesis using b by simp
  next
    case (Inr sh)
    obtain s h1 where sh: "sh = (s, h1)" by (cases sh)
    have sq: "sequence_at (length h1) h1 s (elements p)"
      using build_seq [of h p s h1] b Inr sh by simp
    show ?thesis
      using map_query_seq [OF sq, where f = f] b Inr sh by auto
  qed
next
  case (Filter p pr)
  obtain r where b: "build h p = Some r" using Filter.IH by blast
  show ?case
  proof (cases r)
    case (Inl e)
    then show ?thesis using b by simp
  next
    case (Inr sh)
    obtain s h1 where sh: "sh = (s, h1)" by (cases sh)
    have sq: "sequence_at (length h1) h1 s (elements p)"
      using build_seq [of h p s h1] b Inr sh by simp
    show ?thesis
      using filter_query_seq [OF sq, where pr = pr] b Inr sh by auto
  qed
qed (auto split: sum.splits prod.splits)

lemma pulls_fresh:
  assumes "fresh_cursor h h1 c ys"
  shows "pulls h1 c = Some ys"
  using fresh_cursor_drain [OF assms] by (auto simp: pulls_def)

subsection \<open>The array-specialised stages\<close>

text \<open>
  Claim C3: for every backing array, item and flag, \<open>AppendPrependArrayIterable\<close>
  yields exactly the element sequence of the generic \<open>AppendPrependIterable\<close> built
  over that array, and for every array and count \<open>n \<ge> 0\<close> \<open>TakeArrayIterable\<close>
  yields exactly the element sequence of \<open>TakeIterable\<close>. The array is an object of
  any store; both constructors run in that store. The sequences agree under
  \<open>for (const e of stage)\<close> (\<open>yields\<close>) and under direct calls of \<open>next()\<close> on
  the constructed object (\<open>pulls\<close>), and both traversals return.
\<close>

theorem array_twins_same_sequence:
  assumes "lookup h a = Some (JSArray xs)"
  shows "(\<exists>c1 h1 c2 h2.
            new_AppendPrependIterable h a item app = Some (c1, h1)
          \<and> new_AppendPrependArrayIterable h xs item app = (c2, h2)
          \<and> yields h1 c1 = Some (if app then xs @ [item] else item # xs)
          \<and> yields h2 c2 = yields h1 c1
          \<and> pulls h1 c1 = yields h1 c1
          \<and> pulls h2 c2 = yields h1 c1)
       \<and> (0 \<le> n \<longrightarrow>
           (\<exists>c1 h1 c2 h2.
              new_TakeIterable h a n = Some (Inr (c1, h1))
            \<and> new_TakeArrayIterable h xs n = Inr (c2, h2)
            \<and> yields h1 c1 = Some (take (nat n) xs)
            \<and> yields h2 c2 = yields h1 c1
            \<and> pulls h1 c1 = yields h1 c1
            \<and> pulls h2 c2 = yields h1 c1))"
proof -
  have a: "a < length h" "h ! a = JSArray xs"
    using assms by (auto simp: lookup_def split: if_splits)
  then have sq: "sequence_at (length h) h a xs" by (intro seq_Array)
  have ap: "\<exists>c1 h1 c2 h2.
            new_AppendPrependIterable h a item app = Some (c1, h1)
          \<and> new_AppendPrependArrayIterable h xs item app = (c2, h2)
          \<and> yields h1 c1 = Some (if app then xs @ [item] else item # xs)
          \<and> yields h2 c2 = yields h1 c1
          \<and> pulls h1 c1 = yields h1 c1
          \<and> pulls h2 c2 = yields h1 c1"
  proof -
    let ?zs = "with_item app True item xs"
    obtain it h1 where c: "new_AppendPrependIterable h a item app
        = Some (length h1, h1 @ [AppendPrependIterable a it app item True])"
      and f: "fresh_cursor h h1 it xs"
      using new_AppendPrependIterable_seq [OF sq] by blast
    let ?ob = "AppendPrependIterable a it app item True"
    have sq1: "sequence_at (length (h1 @ [?ob])) (h1 @ [?ob]) (length h1) ?zs"
      and f1: "fresh_cursor h (h1 @ [?ob]) (length h1) ?zs"
      using stage_over_seq(1,2) [OF sq _ f, where ob = ?ob and zs = ?zs] by simp_all
    have y1: "yields (h1 @ [?ob]) (length h1) = Some ?zs"
      using sq1 by (rule yields_seq) simp
    have p1: "pulls (h1 @ [?ob]) (length h1) = Some ?zs"
      using f1 by (rule pulls_fresh)
    let ?ob2 = "AppendPrependArrayIterable xs app item True 0"
    have "sequence_at (length (h @ [?ob2])) (h @ [?ob2]) (length h) ?zs"
      using build_source_seq [where ob = ?ob2 and ys = ?zs] by simp
    then have y2: "yields (h @ [?ob2]) (length h) = Some ?zs"
      by (rule yields_seq) simp
    have "fresh_cursor h (h @ [?ob2]) (length h) ?zs"
      using fresh_cursor_alloc [where ob = ?ob2 and ys = ?zs] by simp
    then have p2: "pulls (h @ [?ob2]) (length h) = Some ?zs"
      by (rule pulls_fresh)
    have "new_AppendPrependArrayIterable h xs item app = (length h, h @ [?ob2])"
      by (simp add: new_AppendPrependArrayIterable_def alloc_def)
    moreover have "?zs = (if app then xs @ [item] else item # xs)"
      by (simp add: with_item_def)
    ultimately show ?thesis using c y1 y2 p1 p2 by auto
  qed
  have tk: "\<exists>c1 h1 c2 h2.
              new_TakeIterable h a n = Some (Inr (c1, h1))
            \<and> new_TakeArrayIterable h xs n = Inr (c2, h2)
            \<and> yields h1 c1 = Some (take (nat n) xs)
            \<and> yields h2 c2 = yields h1 c1
            \<and> pulls h1 c1 = yields h1 c1
            \<and> pulls h2 c2 = yields h1 c1" if n: "0 \<le> n"
  proof -
    let ?zs = "take (nat n) xs"
    obtain it h1 where c: "new_TakeIterable h a n
        = Some (Inr (length h1, h1 @ [TakeIterable a it (nat n) 0]))"
      and f: "fresh_cursor h h1 it xs"
      using new_TakeIterable_seq [OF sq _ n] by blast
    let ?ob = "TakeIterable a it (nat n) 0"
    have sq1: "sequence_at (length (h1 @ [?ob])) (h1 @ [?ob]) (length h1) ?zs"
      and f1: "fresh_cursor h (h1 @ [?ob]) (length h1) ?zs"
      using stage_over_seq(1,2) [OF sq _ f, where ob = ?ob and zs = ?zs] by simp_all
    have y1: "yields (h1 @ [?ob]) (length h1) = Some ?zs"
      using sq1 by (rule yields_seq) simp
    have p1: "pulls (h1 @ [?ob]) (length h1) = Some ?zs"
      using f1 by (rule pulls_fresh)
    let ?ob2 = "TakeArrayIterable xs (nat n) 0"
    have "sequence_at (length (h @ [?ob2])) (h @ [?ob2]) (length h) ?zs"
      using build_source_seq [where ob = ?ob2 and ys = ?zs] by simp
    then have y2: "yields (h @ [?ob2]) (length h) = Some ?zs"
      by (rule yields_seq) simp
    have "fresh_cursor h (h @ [?ob2]) (length h) ?zs"
      using fresh_cursor_alloc [where ob = ?ob2 and ys = ?zs] by simp
    then have p2: "pulls (h @ [?ob2]) (length h) = Some ?zs"
      by (rule pulls_fresh)
    have "new_TakeArrayIterable h xs n = Inr (length h, h @ [?ob2])"
      using n by (simp add: new_TakeArrayIterable_def alloc_def)
    then show ?thesis using c y1 y2 p1 p2 by auto
  qed
  show ?thesis using ap tk by blast
qed

theorem array_twins_same_sequence_witness:
  "lookup [JSArray [JNum 1, JNum 2]] 0 = Some (JSArray [JNum 1, JNum 2])
   \<and> (\<exists>c1 h1 c2 h2.
          new_AppendPrependIterable [JSArray [JNum 1, JNum 2]] 0 (JNum 9) True = Some (c1, h1)
        \<and> new_AppendPrependArrayIterable [JSArray [JNum 1, JNum 2]] [JNum 1, JNum 2] (JNum 9) True
            = (c2, h2)
        \<and> yields h1 c1 = Some [JNum 1, JNum 2, JNum 9]
        \<and> yields h2 c2 = yields h1 c1
        \<and> pulls h1 c1 = yields h1 c1
        \<and> pulls h2 c2 = yields h1 c1)
   \<and> (0 :: int) \<le> 1
   \<and> (\<exists>c1 h1 c2 h2.
          new_TakeIterable [JSArray [JNum 1, JNum 2]] 0 1 = Some (Inr (c1, h1))
        \<and> new_TakeArrayIterable [JSArray [JNum 1, JNum 2]] [JNum 1, JNum 2] 1 = Inr (c2, h2)
        \<and> yields h1 c1 = Some [JNum 1]
        \<and> yields h2 c2 = yields h1 c1
        \<and> pulls h1 c1 = yields h1 c1
        \<and> pulls h2 c2 = yields h1 c1)"
  using array_twins_same_sequence
    [of "[JSArray [JNum 1, JNum 2]]" 0 "[JNum 1, JNum 2]" "JNum 9" True 1]
  by (simp add: lookup_def)

subsection \<open>Restartability\<close>

lemma restart_sequence_at:
  assumes "sequence_at n h a ys" "n \<le> length h"
  shows "\<exists>h1 h2. toArray h a = Some (ys, h1) \<and> preserves h h1
           \<and> toArray h1 a = Some (ys, h2) \<and> preserves h h2"
proof -
  obtain h1 where t1: "toArray h a = Some (ys, h1)" and p1: "preserves h h1"
    using toArray_seq [OF assms] by auto
  have "sequence_at (length h1) h1 a ys" using assms p1 by (rule seq_preserves)
  then obtain h2 where t2: "toArray h1 a = Some (ys, h2)" and p2: "preserves h1 h2"
    using toArray_seq by blast
  have "preserves h h2" using p1 p2 by (rule preserves_trans)
  then show ?thesis using t1 t2 p1 by blast
qed

text \<open>
  The boundary the spec names: an array iterator used as a source is one-shot. The second
  traversal of the same object finds it exhausted.
\<close>

lemma one_shot_source_is_single_pass:
  "toArray [ArrayIterator [JNum 1, JNum 2] 0] 0
     = Some ([JNum 1, JNum 2], [ArrayIterator [JNum 1, JNum 2] 2])
   \<and> toArray [ArrayIterator [JNum 1, JNum 2] 2] 0 = Some ([], [ArrayIterator [JNum 1, JNum 2] 2])"
  by (simp add: toArray_def symbol_iterator.simps drain.simps iterator_next.simps lookup_def
      iteratorResult_def iteratorDone_def)

text \<open>
  Claim C4: for every restartable source and every chain of non-materialising combinators
  built over it, obtaining a cursor and traversing it to exhaustion twice yields the same
  element sequence both times. The sources are arrays and generators; the combinators are
  take, append, prepend and the array-specialised stages, whose code is given, and map and
  filter, modelled from the spec; the chain is built by \<open>build\<close> in any store. Both
  traversals return, the second one in the store the first one left, and both give
  \<open>elements p\<close>.
\<close>

theorem restart_yields_same_sequence:
  assumes "build h p = Some (Inr (s, h0))"
  shows "\<exists>h1 h2. toArray h0 s = Some (elements p, h1) \<and> toArray h1 s = Some (elements p, h2)"
proof -
  have sq: "sequence_at (length h0) h0 s (elements p)" using build_seq [OF assms] by simp
  obtain h1 where t1: "toArray h0 s = Some (elements p, h1)" and p1: "preserves h0 h1"
    using toArray_seq [OF sq] by auto
  have "sequence_at (length h1) h1 s (elements p)" using sq _ p1 by (rule seq_preserves) simp
  then obtain h2 where "toArray h1 s = Some (elements p, h2)"
    using toArray_seq by blast
  then show ?thesis using t1 by blast
qed

theorem restart_yields_same_sequence_witness:
  "\<exists>s h0 h1 h2.
     build [] (Take (Filter (Append (FromValues [JNum 0, JNum 1, JNum 2]) (JNum 3)) truthy) 2)
       = Some (Inr (s, h0))
     \<and> toArray h0 s = Some ([JNum 1, JNum 2], h1)
     \<and> toArray h1 s = Some ([JNum 1, JNum 2], h2)"
proof -
  let ?p = "Take (Filter (Append (FromValues [JNum 0, JNum 1, JNum 2]) (JNum 3)) truthy) 2"
  obtain s h0 where b: "build [] ?p = Some (Inr (s, h0))"
    by (simp add: Query_from_def new_IterableArrayQuery_def append_query_def take_query_def
        filter_query_def new_FilterIterable_def
        new_AppendPrependIterable_def new_TakeIterable_def new_IterableQuery_def
        symbol_iterator.simps lookup_def alloc_def)
  show ?thesis
    using restart_yields_same_sequence [OF b] b by auto
qed

subsection \<open>take and count\<close>

lemma count_query_returns:
  assumes "build h p = Some (Inr (s, h0))"
  shows "\<exists>h'. count_query h0 s = counted (length (elements p)) h'"
proof -
  have "sequence_at (length h0) h0 s (elements p)" using build_seq [OF assms] by simp
  then show ?thesis using count_query_seq by blast
qed

text \<open>
  Claim C5: for every \<open>n \<ge> 0\<close> and every finite sequence \<open>S\<close>,
  \<open>S.take(n).count()\<close> equals \<open>min(n, S.count())\<close>. \<open>S\<close> is the handle a pipeline
  builds and \<open>k\<close> is what \<open>S.count()\<close> returns; \<open>count\<close> throws instead when the
  sequence is longer than \<open>Number.MAX_SAFE_INTEGER\<close> (\<open>count_query_returns\<close>).
\<close>

theorem take_count_is_min:
  assumes "build h p = Some (Inr (s, h0))" and "0 \<le> n"
    and "count_query h0 s = Some (Inr (k, hk))"
  shows "\<exists>t h1 h2. take_query h0 s n = Some (Inr (t, h1))
           \<and> count_query h1 t = Some (Inr (min (nat n) k, h2))"
proof -
  let ?ys = "elements p"
  have sq: "sequence_at (length h0) h0 s ?ys" using build_seq [OF assms(1)] by simp
  obtain h' where "count_query h0 s = counted (length ?ys) h'"
    using count_query_seq [OF sq] by auto
  then have k: "k = length ?ys" "length ?ys \<le> MAX_SAFE_INTEGER"
    using assms(3) by (auto simp: counted_def split: if_splits)
  obtain t h1 where t: "take_query h0 s n = Some (Inr (t, h1))"
    and sq1: "sequence_at (length h1) h1 t (take (nat n) ?ys)"
    using take_query_seq [OF sq _ assms(2)] by auto
  obtain h2 where "count_query h1 t = counted (length (take (nat n) ?ys)) h2"
    using count_query_seq [OF sq1] by auto
  then have "count_query h1 t = Some (Inr (min (nat n) k, h2))"
    using k by (simp add: counted_def min.commute)
  then show ?thesis using t by blast
qed

theorem take_count_is_min_witness:
  "\<exists>hk t h1 h2.
     build [] (FromValues [JNum 1, JNum 2, JNum 3])
       = Some (Inr (0, [IterableArrayQuery [JNum 1, JNum 2, JNum 3]]))
     \<and> (0 :: int) \<le> 2
     \<and> count_query [IterableArrayQuery [JNum 1, JNum 2, JNum 3]] 0 = Some (Inr (3, hk))
     \<and> take_query [IterableArrayQuery [JNum 1, JNum 2, JNum 3]] 0 2 = Some (Inr (t, h1))
     \<and> count_query h1 t = Some (Inr (2, h2))"
proof -
  let ?h0 = "[IterableArrayQuery [JNum 1, JNum 2, JNum 3]]"
  have b: "build [] (FromValues [JNum 1, JNum 2, JNum 3]) = Some (Inr (0, ?h0))"
    by (simp add: Query_from_def new_IterableArrayQuery_def alloc_def)
  obtain hk where c: "count_query ?h0 0 = Some (Inr (3, hk))"
    by (simp add: count_query_def count_traverse_def lookup_def symbol_iterator.simps alloc_def
        count_loop.simps iterator_next.simps iteratorResult_def iteratorDone_def
        MAX_SAFE_INTEGER_def)
  show ?thesis
    using take_count_is_min [OF b _ c, of 2] b c by auto
qed

subsection \<open>Invalid arguments\<close>

lemma ToString_minus_1: "ToString (JNum (- 1)) = ''-1''"
  by (simp add: digits_of.simps digit_char_def)

text \<open>
  Claim C6: constructing a stage with an invalid argument (a negative count for take, a
  negative length for the generator, a zero step, a chunk size that is not positive)
  throws at construction, before any traversal, and is never clamped; in particular
  \<open>take(-1)\<close> and \<open>chunk(0)\<close> fail at the constructing call. The constructors and
  \<open>take\<close> return the error in every store and for every source address, also one that
  holds no object: the check comes before the source is touched.
\<close>

theorem invalid_argument_fails_at_construction:
  "(n < 0 \<longrightarrow>
      new_TakeIterable h s n = Some (Inl (Error (''Invalid argument: '' @ ToString (JNum n))))
    \<and> new_TakeArrayIterable h xs n = Inl (Error (''Invalid argument: '' @ ToString (JNum n)))
    \<and> take_query h s n = Some (Inl (Error (''Invalid argument: '' @ ToString (JNum n)))))
   \<and> (len < 0 \<longrightarrow>
      new_IterableGenerator h len g seed = Inl (Error ''length cannot be 0'')
    \<and> Query_generate h len g seed = Inl (Error ''length cannot be 0''))
   \<and> isl (new_RangeIterable start stop 0 inclusive)
   \<and> (chunkSize \<le> 0 \<longrightarrow> isl (new_ChunkIterable h s chunkSize))"
  by (simp add: new_TakeIterable_def new_TakeArrayIterable_def take_query_def
      new_IterableGenerator_def Query_generate_def new_RangeIterable_def new_ChunkIterable_def)

theorem invalid_argument_fails_at_construction_witness:
  "(- 1 :: int) < 0
   \<and> new_TakeIterable [] 0 (- 1) = Some (Inl (Error ''Invalid argument: -1''))
   \<and> new_TakeArrayIterable [] [JNum 1] (- 1) = Inl (Error ''Invalid argument: -1'')
   \<and> take_query [] 0 (- 1) = Some (Inl (Error ''Invalid argument: -1''))
   \<and> new_IterableGenerator [] (- 1) (\<lambda>i prev. JNum (int i)) JUndefined
       = Inl (Error ''length cannot be 0'')
   \<and> Query_generate [] (- 1) (\<lambda>i prev. JNum (int i)) JUndefined
       = Inl (Error ''length cannot be 0'')
   \<and> isl (new_RangeIterable 1 5 0 False)
   \<and> (0 :: int) \<le> 0
   \<and> isl (new_ChunkIterable [] 0 0)"
  using invalid_argument_fails_at_construction
    [of "- 1" "[]" 0 "[JNum 1]" "- 1" "\<lambda>i prev. JNum (int i)" JUndefined 1 5 False 0]
  by (simp add: ToString_minus_1 del: ToString.simps)

subsection \<open>Receivers that hand out a cursor\<close>


lemma lookup_Some_less: "lookup h a = Some ob \<Longrightarrow> a < length h"
  by (simp add: lookup_def split: if_splits)
















subsection \<open>A handle over an array iterator\<close>

text \<open>
  A handle that wraps an array iterator is a handle over a one-shot source: its cursor is
  the iterator itself, so \<open>isEmpty()\<close> consumes an element of the only traversal there
  is, and a loop that follows starts after that element.
\<close>

lemma isEmpty_query_one_shot:
  assumes "lookup h s = Some (IterableQuery it)" "lookup h it = Some (ArrayIterator xs i)"
  shows "isEmpty_query h s
           = (if i < length xs then Some (False, h[it := ArrayIterator xs (i + 1)])
              else Some (True, h))"
proof -
  have 1: "symbol_iterator h it = Some (it, h)"
    using assms(2) by (subst symbol_iterator.simps) simp
  have 2: "symbol_iterator h s = Some (it, h)"
    using assms(1) 1 by (subst symbol_iterator.simps) simp
  have 3: "iterator_next h it
             = (if i < length xs
                then Some (iteratorResult (xs ! i), h[it := ArrayIterator xs (i + 1)])
                else Some (iteratorDone, h))"
    using assms(2) by (subst iterator_next.simps) simp
  show ?thesis
    using 2 3 by (simp add: isEmpty_query_def iteratorResult_def iteratorDone_def)
qed



lemma for_of_one_shot:
  assumes "lookup h s = Some (IterableQuery it)" "lookup h it = Some (ArrayIterator xs i)"
  shows "\<exists>h'. for_of h s body st = Some (for_list body st (drop i xs), h')"
proof -
  have 1: "symbol_iterator h it = Some (it, h)"
    using assms(2) by (subst symbol_iterator.simps) simp
  have 2: "symbol_iterator h s = Some (it, h)"
    using assms(1) 1 by (subst symbol_iterator.simps) simp
  have "it < length h" "h ! it = ArrayIterator xs i"
    using assms(2) by (auto simp: lookup_def split: if_splits)
  then have "cursor_at h it {it} (drop i xs)" by (rule cur_ArrayIterator)
  then obtain h' where "for_loop h it body st = Some (for_list body st (drop i xs), h')"
    using for_loop_cursor [of h it "{it}" "drop i xs" body st] by blast
  then show ?thesis using 2 by (simp add: for_of_def)
qed

lemma twice_over_one_shot:
  assumes "lookup h s = Some (IterableQuery it)" "lookup h it = Some (ArrayIterator xs i)"
    "i < length xs"
  shows "\<exists>h1 h2. isEmpty_query h s = Some (False, h1)
           \<and> for_of h1 s body st = Some (for_list body st (drop (i + 1) xs), h2)"
proof -
  let ?h1 = "h[it := ArrayIterator xs (i + 1)]"
  have e: "isEmpty_query h s = Some (False, ?h1)"
    using isEmpty_query_one_shot [OF assms(1,2)] assms(3) by simp
  have ne: "s \<noteq> it" using assms(1,2) by auto
  have it: "it < length h" using assms(2) by (rule lookup_Some_less)
  have l1: "lookup ?h1 s = Some (IterableQuery it)"
    using assms(1) ne by (auto simp: lookup_def split: if_splits)
  have l2: "lookup ?h1 it = Some (ArrayIterator xs (i + 1))"
    using it by (simp add: lookup_def)
  show ?thesis using e for_of_one_shot [OF l1 l2, of body st] by blast
qed



lemma fold_query_one_shot:
  assumes "lookup h s = Some (IterableQuery it)" "lookup h it = Some (ArrayIterator xs i)"
    "i < length xs"
  shows "\<exists>h'. fold_query h s (seed :: 'r) combine
           = Some (fold_loop combine seed (drop (i + 1) xs), h')"
proof -
  let ?body = "\<lambda>result e. (Inr (combine result e) :: 'r + 'r)"
  obtain h1 h2 where "isEmpty_query h s = Some (False, h1)"
    "for_of h1 s ?body seed = Some (for_list ?body seed (drop (i + 1) xs), h2)"
    using twice_over_one_shot [OF assms, of ?body seed] by blast
  then show ?thesis by (auto simp: fold_query_def fold_loop_for_list)
qed

subsection \<open>Handles and chain operations\<close>









subsection \<open>fold, indexOf and findIndex\<close>

text \<open>
  Over a restartable sequence the cursor of \<open>isEmpty()\<close> and the cursor of the loop
  both yield all the elements, and every object of the store is left unchanged.
\<close>

lemma twice_over_sequence:
  assumes "sequence_at n h a ys" "n \<le> length h"
  shows "\<exists>h1 h2. isEmpty_query h a = Some (ys = [], h1) \<and> preserves h h1
           \<and> for_of h1 a body s = Some (for_list body s ys, h2) \<and> preserves h h2"
proof -
  obtain h1 where e: "isEmpty_query h a = Some (ys = [], h1)" and p1: "preserves h h1"
    using isEmpty_query_seq [OF assms] by blast
  have sq1: "sequence_at (length h1) h1 a ys" by (rule seq_preserves [OF assms p1])
  obtain h2 where f: "for_of h1 a body s = Some (for_list body s ys, h2)"
    and p2: "preserves h1 h2"
    using for_of_sequence [OF sq1, of body s] by auto
  have "preserves h h2" by (rule preserves_trans [OF p1 p2])
  then show ?thesis using e p1 f by blast
qed

lemma fold_query_seq:
  assumes "sequence_at n h a ys" "n \<le> length h"
  shows "\<exists>h'. fold_query h a (seed :: 'r) combine = Some (fold_loop combine seed ys, h')
           \<and> preserves h h'"
proof -
  let ?body = "\<lambda>result e. (Inr (combine result e) :: 'r + 'r)"
  obtain h1 h2 where e: "isEmpty_query h a = Some (ys = [], h1)" and p1: "preserves h h1"
    and f: "for_of h1 a ?body seed = Some (Inr (fold_loop combine seed ys), h2)"
    and p2: "preserves h h2"
    using twice_over_sequence [OF assms, of ?body seed]
    by (auto simp: fold_loop_for_list)
  show ?thesis
  proof (cases "ys = []")
    case True
    then show ?thesis using e p1 by (auto simp: fold_query_def)
  next
    case False
    then show ?thesis using e f p2 by (auto simp: fold_query_def)
  qed
qed



lemma fold_query_empty:
  assumes "build h p = Some (Inr (s, hq))" "elements p = []"
  shows "\<exists>h1. fold_query hq s seed combine = Some (seed, h1) \<and> preserves hq h1"
proof -
  have "sequence_at (length hq) hq s []" using build_seq [OF assms(1)] assms(2) by simp
  then show ?thesis using fold_query_seq [of "length hq" hq s "[]" seed combine] by simp
qed




end
